theory Spec2Isabelle
  imports Main "HOL-Library.Sublist"
begin

section \<open>The environment of index.js\<close>

text \<open>
  index.js is a Node script that drives a browser through puppeteer. Everything it does
  goes through the platform: the file system, the clock, the console, the browser. The
  embedding makes that platform an explicit value, the \<open>world\<close>, which every effectful
  call takes and returns. The world holds
  \<^item> the state of the download directory (\<open>dir\<close>),
  \<^item> what the environment will answer: the successive readings of the clock, each with
    the directory's contents at that moment (\<open>ticks\<close>), and the successive outcomes of
    the puppeteer calls (\<open>browser\<close>),
  \<^item> what the program has done so far: the calls it issued, in order (\<open>trace\<close>).
  A promise that rejects, and a \<open>throw\<close>, are the result \<open>Throw\<close>; \<open>process.exit\<close> is
  the result \<open>Exited\<close>; a call the environment's script has no answer for leaves the run
  \<open>Pending\<close>. A wait of the browser that times out is a promise that rejects: the
  timeouts of lines 105 and 115 are the browser's to keep.

  Strings are byte strings (\<open>process.argv\<close> and filenames in UTF-8). The selectors and
  the console messages, which the program only passes on, are constructors.
\<close>

datatype selector = IMAGE_LINK | NEXT_BUTTON

datatype error =
  DirectoryNotEmpty string nat \<comment> \<open>line 61: the directory and \<open>files.length\<close>\<close>
| DownloadTimedOut \<comment> \<open>line 77\<close>
| External string \<comment> \<open>an error raised by fs or by puppeteer, with its message\<close>

datatype message =
  MISSING_ARGUMENT | USAGE | NOTE_QUOTES | EXAMPLE
| INVALID_URL | COMMON_ISSUES | ISSUE_PROTOCOL | ISSUE_SPECIAL_CHARACTERS | ISSUE_MALFORMED
| DOWNLOAD_START nat
| DOWNLOAD_SUCCESS string
| NAVIGATION_PROGRESS nat
| COMPLETION nat
| CURRENT_URL \<comment> \<open>line 102; the text printed is the browser's \<open>page.url()\<close>\<close>
| END_OF_ALBUM
| ERROR_MESSAGE error \<comment> \<open>line 136: \<open>error.message\<close>\<close>
| CRITICAL_ERROR error \<comment> \<open>line 166\<close>

datatype action =
  ConsoleError message
| ConsoleLog message
| ProcessExit nat
| Mkdir string
| Readdir string
| DateNow
| SetTimeout nat
| Launch
| NewPage
| CreateCDPSession
| SetDownloadBehavior string
| Goto string
| Click selector
| WaitForSelector selector
| ClickElement
| BrowserClose

text \<open>The download directory's path on disk: missing, something that is not a directory,
  or a directory with its filenames in the order \<open>readdir\<close> lists them.\<close>

datatype entry = Absent | NotDir | Dir "string list"

text \<open>How a puppeteer promise settles: with an object, with \<open>null\<close>, or rejected.\<close>

datatype response = Resolves | ResolvesNull | Rejects string

record world =
  dirname :: string
  dir :: entry
  ticks :: "(int \<times> string list) list"
  browser :: "response list"
  trace :: "action list"

datatype 'a res = Return 'a | Throw error | Exited nat | Pending

type_synonym 'a io = "'a res \<times> world"

subsection \<open>Sequencing, try/catch, try/finally\<close>

definition bind :: "'a io \<Rightarrow> ('a \<Rightarrow> world \<Rightarrow> 'b io) \<Rightarrow> 'b io" where
  "bind m f =
     (case m of
        (Return x, w) \<Rightarrow> f x w
      | (Throw e, w) \<Rightarrow> (Throw e, w)
      | (Exited c, w) \<Rightarrow> (Exited c, w)
      | (Pending, w) \<Rightarrow> (Pending, w))"

definition try_catch :: "'a io \<Rightarrow> (error \<Rightarrow> world \<Rightarrow> 'a io) \<Rightarrow> 'a io" where
  "try_catch m h = (case m of (Throw e, w) \<Rightarrow> h e w | (r, w) \<Rightarrow> (r, w))"

text \<open>\<open>try { m } finally { f }\<close>: \<open>f\<close> runs after a return and after a throw, and what
  \<open>f\<close> throws replaces the outcome of \<open>m\<close>. \<open>process.exit\<close> runs no \<open>finally\<close> block.\<close>

definition try_finally :: "'a io \<Rightarrow> (world \<Rightarrow> 'b io) \<Rightarrow> 'a io" where
  "try_finally m f =
     (case m of
        (Return x, w) \<Rightarrow>
          (case f w of
             (Return _, w') \<Rightarrow> (Return x, w')
           | (Throw e, w') \<Rightarrow> (Throw e, w')
           | (Exited c, w') \<Rightarrow> (Exited c, w')
           | (Pending, w') \<Rightarrow> (Pending, w'))
      | (Throw e, w) \<Rightarrow>
          (case f w of
             (Return _, w') \<Rightarrow> (Throw e, w')
           | (Throw e', w') \<Rightarrow> (Throw e', w')
           | (Exited c, w') \<Rightarrow> (Exited c, w')
           | (Pending, w') \<Rightarrow> (Pending, w'))
      | (Exited c, w) \<Rightarrow> (Exited c, w)
      | (Pending, w) \<Rightarrow> (Pending, w))"

subsection \<open>The platform's calls\<close>

definition emit :: "action \<Rightarrow> world \<Rightarrow> world" where
  "emit a w = w\<lparr>trace := trace w @ [a]\<rparr>"

definition console_log :: "message \<Rightarrow> world \<Rightarrow> unit io" where
  "console_log m w = (Return (), emit (ConsoleLog m) w)"

definition console_error :: "message \<Rightarrow> world \<Rightarrow> unit io" where
  "console_error m w = (Return (), emit (ConsoleError m) w)"

definition process_exit :: "nat \<Rightarrow> world \<Rightarrow> 'a io" where
  "process_exit c w = (Exited c, emit (ProcessExit c) w)"

text \<open>\<open>fs.mkdir(p, { recursive: true })\<close> creates a missing directory, leaves an existing
  one as it is, and rejects when the path is taken by something else.\<close>

definition fs_mkdir :: "string \<Rightarrow> world \<Rightarrow> unit io" where
  "fs_mkdir p w =
     (let w' = emit (Mkdir p) w in
      case dir w of
        Absent \<Rightarrow> (Return (), w'\<lparr>dir := Dir []\<rparr>)
      | Dir fs \<Rightarrow> (Return (), w')
      | NotDir \<Rightarrow> (Throw (External ''EEXIST''), w'))"

definition fs_readdir :: "string \<Rightarrow> world \<Rightarrow> string list io" where
  "fs_readdir p w =
     (let w' = emit (Readdir p) w in
      case dir w of
        Dir fs \<Rightarrow> (Return fs, w')
      | Absent \<Rightarrow> (Throw (External ''ENOENT''), w')
      | NotDir \<Rightarrow> (Throw (External ''ENOTDIR''), w'))"

text \<open>\<open>Date.now()\<close>: the next reading of the clock. Time has passed since the last
  reading, and the browser has been writing meanwhile: the reading comes with the
  directory's contents at that moment.\<close>

definition date_now :: "world \<Rightarrow> int io" where
  "date_now w =
     (case ticks w of
        [] \<Rightarrow> (Pending, emit DateNow w)
      | (t, fs) # rest \<Rightarrow> (Return t, emit DateNow (w\<lparr>dir := Dir fs, ticks := rest\<rparr>)))"

text \<open>\<open>await new Promise(resolve => setTimeout(resolve, ms))\<close>\<close>

definition setTimeout :: "nat \<Rightarrow> world \<Rightarrow> unit io" where
  "setTimeout ms w = (Return (), emit (SetTimeout ms) w)"

text \<open>A puppeteer call takes the next outcome of the script. The result is whether the
  promise resolved with an object; the calls whose value the program never reads ignore
  it.\<close>

definition settle :: "response \<Rightarrow> bool res" where
  "settle r =
     (case r of
        Resolves \<Rightarrow> Return True
      | ResolvesNull \<Rightarrow> Return False
      | Rejects m \<Rightarrow> Throw (External m))"

definition puppeteer :: "action \<Rightarrow> world \<Rightarrow> bool io" where
  "puppeteer a w =
     (case browser w of
        [] \<Rightarrow> (Pending, emit a w)
      | r # rs \<Rightarrow> (settle r, emit a (w\<lparr>browser := rs\<rparr>)))"

section \<open>Lines 13-53: URL validation and configuration\<close>

text \<open>
  \<open>new URL(url)\<close> is the platform's URL parser (the URL Standard's basic URL parser, run
  without a base URL), not code of this repository. Its first states are written out
  here: strip leading and trailing C0 controls and spaces, drop tabs and newlines, then
  read a scheme \<open>alpha (alphanumeric | + | - | .)* :\<close>. Without a base URL an input with
  no scheme is a failure (the "no scheme state"). The states that parse what follows the
  scheme are the parameter \<open>after_scheme\<close>, given the lower-cased scheme and the rest of
  the input.
\<close>

definition c0_control_or_space :: "char \<Rightarrow> bool" where
  "c0_control_or_space c = ((of_char c :: nat) \<le> 32)"

definition ascii_tab_or_newline :: "char \<Rightarrow> bool" where
  "ascii_tab_or_newline c = ((of_char c :: nat) = 9 \<or> (of_char c :: nat) = 10 \<or> (of_char c :: nat) = 13)"

definition ascii_upper_alpha :: "char \<Rightarrow> bool" where
  "ascii_upper_alpha c = (65 \<le> (of_char c :: nat) \<and> (of_char c :: nat) \<le> 90)"

definition ascii_lower_alpha :: "char \<Rightarrow> bool" where
  "ascii_lower_alpha c = (97 \<le> (of_char c :: nat) \<and> (of_char c :: nat) \<le> 122)"

definition ascii_alpha :: "char \<Rightarrow> bool" where
  "ascii_alpha c = (ascii_upper_alpha c \<or> ascii_lower_alpha c)"

definition ascii_digit :: "char \<Rightarrow> bool" where
  "ascii_digit c = (48 \<le> (of_char c :: nat) \<and> (of_char c :: nat) \<le> 57)"

definition ascii_lowercase :: "char \<Rightarrow> char" where
  "ascii_lowercase c = (if ascii_upper_alpha c then char_of ((of_char c :: nat) + 32) else c)"

definition strip_c0 :: "string \<Rightarrow> string" where
  "strip_c0 s = rev (dropWhile c0_control_or_space (rev (dropWhile c0_control_or_space s)))"

fun scheme_state :: "string \<Rightarrow> string \<Rightarrow> (string \<times> string) option" where
  "scheme_state buffer [] = None"
| "scheme_state buffer (c # cs) =
     (if ascii_alpha c \<or> ascii_digit c \<or> c = CHR ''+'' \<or> c = CHR ''-'' \<or> c = CHR ''.''
      then scheme_state (buffer @ [ascii_lowercase c]) cs
      else if c = CHR '':'' then Some (buffer, cs)
      else None)"

definition scheme_start_state :: "string \<Rightarrow> (string \<times> string) option" where
  "scheme_start_state input =
     (case input of
        [] \<Rightarrow> None
      | c # cs \<Rightarrow> if ascii_alpha c then scheme_state [ascii_lowercase c] cs else None)"

text \<open>\<open>new_URL\<close> is \<open>True\<close> when the constructor returns, \<open>False\<close> when it throws.\<close>

definition new_URL :: "(string \<Rightarrow> string \<Rightarrow> bool) \<Rightarrow> string \<Rightarrow> bool" where
  "new_URL after_scheme url =
     (case scheme_start_state (filter (\<lambda>c. \<not> ascii_tab_or_newline c) (strip_c0 url)) of
        None \<Rightarrow> False
      | Some (scheme, rest) \<Rightarrow> after_scheme scheme rest)"

definition isValidUrl :: "(string \<Rightarrow> string \<Rightarrow> bool) \<Rightarrow> string \<Rightarrow> bool" where
  "isValidUrl after_scheme url = (if new_URL after_scheme url then True else False)"

text \<open>The most permissive parser of the rest: it accepts whatever follows a scheme. It
  instantiates the parameter where a concrete run is evaluated.\<close>

definition accept_rest :: "string \<Rightarrow> string \<Rightarrow> bool" where
  "accept_rest scheme rest = True"

definition DOWNLOAD_DIR :: string where
  "DOWNLOAD_DIR = ''photos''"

definition DOWNLOAD :: int where
  "DOWNLOAD = 30000"

definition ELEMENT_VISIBLE :: nat where
  "ELEMENT_VISIBLE = 15000"

definition ANIMATION :: nat where
  "ANIMATION = 2000"

definition POLL_INTERVAL :: nat where
  "POLL_INTERVAL = 500"

section \<open>Lines 58-78: the directory check and the download watcher\<close>

definition checkDirectoryEmpty :: "string \<Rightarrow> world \<Rightarrow> unit io" where
  "checkDirectoryEmpty directory w =
     bind (fs_readdir directory w) (\<lambda>files w.
       if length files > 0 then (Throw (DirectoryNotEmpty directory (length files)), w)
       else (Return (), w))"

definition array_includes :: "'a list \<Rightarrow> 'a \<Rightarrow> bool" where
  "array_includes xs x = (x \<in> set xs)"

definition endsWith :: "string \<Rightarrow> string \<Rightarrow> bool" where
  "endsWith s searchString =
     (length searchString \<le> length s \<and>
      drop (length s - length searchString) s = searchString)"

text \<open>Lines 71-74 of one poll: the new files, the first of them that is not a
  \<open>.crdownload\<close>, and the test \<open>if (completedFile)\<close>, which a missing result and the empty
  string both fail.\<close>

definition completed :: "string list \<Rightarrow> string list \<Rightarrow> string option" where
  "completed filesBefore filesAfter =
     (let newFiles = filter (\<lambda>f. \<not> array_includes filesBefore f) filesAfter;
          completedFile = find (\<lambda>f. \<not> endsWith f ''.crdownload'') newFiles
      in case completedFile of
           None \<Rightarrow> None
         | Some f \<Rightarrow> if f = [] then None else Some f)"

lemma bind_cong [fundef_cong]:
  "m = m' \<Longrightarrow> (\<And>x w. m' = (Return x, w) \<Longrightarrow> f x w = f' x w) \<Longrightarrow> bind m f = bind m' f'"
  by (auto simp: bind_def split: prod.splits res.splits)

lemma bind_simps [simp]:
  "bind (Return x, w) f = f x w"
  "bind (Throw e, w) f = (Throw e, w)"
  "bind (Exited c, w) f = (Exited c, w)"
  "bind (Pending, w) f = (Pending, w)"
  by (simp_all add: bind_def)

text \<open>The simplifier rewrites the continuation of a \<open>bind\<close> only once its first part has
  a result, as it does for the branches of an \<open>if\<close>.\<close>

lemma bind_weak_cong [cong]: "m = m' \<Longrightarrow> bind m f = bind m' f"
  by simp

lemma date_now_ticks:
  "date_now w = (Return t, w') \<Longrightarrow> length (ticks w') < length (ticks w)"
  by (auto simp: date_now_def emit_def split: list.splits)

lemma fs_readdir_ticks: "fs_readdir p w = (r, w') \<Longrightarrow> ticks w' = ticks w"
  by (auto simp: fs_readdir_def emit_def Let_def split: entry.splits)

lemma setTimeout_ticks: "setTimeout ms w = (r, w') \<Longrightarrow> ticks w' = ticks w"
  by (auto simp: setTimeout_def emit_def)

text \<open>The loop of lines 69-76.\<close>

function pollLoop :: "string \<Rightarrow> int \<Rightarrow> string list \<Rightarrow> world \<Rightarrow> string io" where
  "pollLoop directory startTime filesBefore w =
     bind (date_now w) (\<lambda>now w.
       if now - startTime < DOWNLOAD then
         bind (fs_readdir directory w) (\<lambda>filesAfter w.
           case completed filesBefore filesAfter of
             Some completedFile \<Rightarrow> (Return completedFile, w)
           | None \<Rightarrow>
               bind (setTimeout POLL_INTERVAL w) (\<lambda>_ w.
                 pollLoop directory startTime filesBefore w))
       else (Throw DownloadTimedOut, w))"
  by pat_completeness auto
termination
  by (relation "measure (\<lambda>(directory, startTime, filesBefore, w). length (ticks w))")
    (auto dest!: date_now_ticks fs_readdir_ticks setTimeout_ticks)

declare pollLoop.simps [simp del]

definition waitForDownloadCompletion :: "string \<Rightarrow> world \<Rightarrow> string io" where
  "waitForDownloadCompletion directory w =
     bind (date_now w) (\<lambda>startTime w.
       bind (fs_readdir directory w) (\<lambda>filesBefore w.
         pollLoop directory startTime filesBefore w))"

section \<open>Lines 83-124: the browser session and the pagination step\<close>

definition configureDownloads :: "string \<Rightarrow> world \<Rightarrow> bool io" where
  "configureDownloads downloadPath w =
     bind (puppeteer CreateCDPSession w) (\<lambda>client w.
       puppeteer (SetDownloadBehavior downloadPath) w)"

definition setupBrowser :: "world \<Rightarrow> bool io" where
  "setupBrowser w = bind (puppeteer Launch w) (\<lambda>browser w. puppeteer NewPage w)"

text \<open>The \<open>try\<close> block of lines 101-119 and its \<open>catch\<close> of lines 120-123. The function
  returns \<open>true\<close> for another photo and \<open>false\<close> for the end of the gallery.\<close>

definition handleNextButton :: "nat \<Rightarrow> world \<Rightarrow> bool io" where
  "handleNextButton photoCount w =
     try_catch
       (bind (console_log CURRENT_URL w) (\<lambda>_ w.
        bind (puppeteer (WaitForSelector NEXT_BUTTON) w) (\<lambda>nextContainer w.
          if \<not> nextContainer then (Return False, w)
          else
            bind (console_log (NAVIGATION_PROGRESS photoCount) w) (\<lambda>_ w.
            bind (puppeteer ClickElement w) (\<lambda>_ w.
            bind (puppeteer (WaitForSelector IMAGE_LINK) w) (\<lambda>_ w.
            bind (setTimeout ANIMATION w) (\<lambda>_ w.
              (Return True, w))))))))
       (\<lambda>error w.
          bind (console_log END_OF_ALBUM w) (\<lambda>_ w. (Return False, w)))"

section \<open>Lines 129-168: the run\<close>

subsection \<open>The watcher and the pagination step leave the browser's script as it is\<close>

text \<open>One iteration of the poll loop, by the next tick of the environment. \<open>polled\<close> is
  the world after the clock and then the directory have been read.\<close>

definition polled :: "string \<Rightarrow> string list \<Rightarrow> world \<Rightarrow> world" where
  "polled directory fs w =
     emit (Readdir directory) (emit DateNow (w\<lparr>dir := Dir fs, ticks := tl (ticks w)\<rparr>))"

lemma polled_simps [simp]:
  "ticks (polled directory fs w) = tl (ticks w)"
  "browser (polled directory fs w) = browser w"
  "trace (polled directory fs w) = trace w @ [DateNow, Readdir directory]"
  "dir (polled directory fs w) = Dir fs"
  by (simp_all add: polled_def emit_def)

lemma emit_simps [simp]:
  "ticks (emit a w) = ticks w"
  "browser (emit a w) = browser w"
  "trace (emit a w) = trace w @ [a]"
  "dir (emit a w) = dir w"
  "dirname (emit a w) = dirname w"
  by (simp_all add: emit_def)

lemma pollLoop_Nil:
  "ticks w = [] \<Longrightarrow> pollLoop directory startTime filesBefore w = (Pending, emit DateNow w)"
  by (subst pollLoop.simps) (simp add: date_now_def)

lemma pollLoop_Cons:
  "ticks w = (t, fs) # rest \<Longrightarrow>
   pollLoop directory startTime filesBefore w =
     (if t - startTime < DOWNLOAD then
        (case completed filesBefore fs of
           Some f \<Rightarrow> (Return f, polled directory fs w)
         | None \<Rightarrow> pollLoop directory startTime filesBefore
                     (emit (SetTimeout POLL_INTERVAL) (polled directory fs w)))
      else (Throw DownloadTimedOut, emit DateNow (w\<lparr>dir := Dir fs, ticks := rest\<rparr>)))"
  by (subst pollLoop.simps)
     (simp add: date_now_def fs_readdir_def setTimeout_def emit_def polled_def split: option.splits)

lemma waitForDownloadCompletion_Nil:
  "ticks w = [] \<Longrightarrow> waitForDownloadCompletion directory w = (Pending, emit DateNow w)"
  by (simp add: waitForDownloadCompletion_def date_now_def)

lemma waitForDownloadCompletion_Cons:
  "ticks w = (t0, before) # rest \<Longrightarrow>
   waitForDownloadCompletion directory w = pollLoop directory t0 before (polled directory before w)"
  by (simp add: waitForDownloadCompletion_def date_now_def fs_readdir_def emit_def polled_def)

lemma pollLoop_browser [simp]:
  "browser (snd (pollLoop directory startTime filesBefore w)) = browser w"
proof (induction "ticks w" arbitrary: w)
  case Nil
  then show ?case by (simp add: pollLoop_Nil[OF Nil.hyps[symmetric]])
next
  case (Cons p rest)
  obtain t fs where p: "p = (t, fs)" by (cases p)
  from Cons.hyps(2) p have tw: "ticks w = (t, fs) # rest" by simp
  have tr: "rest = ticks (emit (SetTimeout POLL_INTERVAL) (polled directory fs w))"
    by (simp add: tw)
  show ?case
    using Cons.hyps(1)[OF tr]
    by (simp add: pollLoop_Cons[OF tw] split: option.splits)
qed

lemma waitForDownloadCompletion_browser [simp]:
  "browser (snd (waitForDownloadCompletion directory w)) = browser w"
proof (cases "ticks w")
  case Nil
  then show ?thesis by (simp add: waitForDownloadCompletion_Nil)
next
  case (Cons p rest)
  then show ?thesis
    by (cases p) (simp add: waitForDownloadCompletion_Cons)
qed

lemma puppeteer_browser:
  "puppeteer a w = (Return x, w') \<Longrightarrow> length (browser w') < length (browser w)"
  by (auto simp: puppeteer_def emit_def split: list.splits)

lemma handleNextButton_browser:
  "length (browser (snd (handleNextButton n w))) \<le> length (browser w)"
  by (simp add: handleNextButton_def try_catch_def console_log_def setTimeout_def
      puppeteer_def settle_def emit_def split: list.splits response.splits)

subsection \<open>The loop and the script\<close>

text \<open>The \<open>while (true)\<close> loop of lines 147-157. Each iteration takes an answer of the
  browser for its click, which is why the recursion ends. It returns \<open>photoCount\<close> as it stands at
  the \<open>break\<close>.\<close>

function main_loop :: "string \<Rightarrow> nat \<Rightarrow> world \<Rightarrow> nat io" where
  "main_loop downloadPath photoCount w =
     bind (console_log (DOWNLOAD_START photoCount) w) (\<lambda>_ w.
     bind (puppeteer (Click IMAGE_LINK) w) (\<lambda>_ w.
     bind (waitForDownloadCompletion downloadPath w) (\<lambda>filename w.
     bind (console_log (DOWNLOAD_SUCCESS filename) w) (\<lambda>_ w.
     bind (handleNextButton (photoCount + 1) w) (\<lambda>hasNext w.
       if \<not> hasNext then (Return photoCount, w)
       else main_loop downloadPath (photoCount + 1) w)))))"
  by pat_completeness auto
termination
proof (relation "measure (\<lambda>(downloadPath, photoCount, w). length (browser w))", goal_cases)
  case 1
  show ?case by simp
next
  case (2 downloadPath photoCount w u1 w1 u2 w2 filename w3 u3 w4 hasNext w5)
  have "browser w1 = browser w"
    using 2(1) by (auto simp: console_log_def emit_def)
  moreover have "length (browser w2) < length (browser w1)"
    using 2(2) by (rule puppeteer_browser)
  moreover have "browser w3 = browser w2"
    using waitForDownloadCompletion_browser[of downloadPath w2] 2(3) by simp
  moreover have "browser w4 = browser w3"
    using 2(4) by (auto simp: console_log_def emit_def)
  moreover have "length (browser w5) \<le> length (browser w4)"
    using handleNextButton_browser[of "photoCount + 1" w4] 2(5) by simp
  ultimately show ?case by simp
qed

declare main_loop.simps [simp del]

text \<open>\<open>path.join(__dirname, CONFIG.DOWNLOAD_DIR)\<close>, for a directory name with no trailing
  separator.\<close>

definition path_join :: "string \<Rightarrow> string \<Rightarrow> string" where
  "path_join a b = a @ ''/'' @ b"

text \<open>\<open>main\<close> in three parts: lines 130-141 up to the configured browser session, the
  \<open>try\<close> block of lines 144-159, and the \<open>finally\<close> block of line 161.\<close>

definition open_session :: "world \<Rightarrow> string io" where
  "open_session w =
     (let downloadPath = path_join (dirname w) DOWNLOAD_DIR in
      bind (fs_mkdir downloadPath w) (\<lambda>_ w.
      bind (try_catch (checkDirectoryEmpty downloadPath w)
             (\<lambda>error w.
                bind (console_error (ERROR_MESSAGE error) w) (\<lambda>_ w. process_exit 1 w)))
        (\<lambda>_ w.
      bind (setupBrowser w) (\<lambda>_ w.
      bind (configureDownloads downloadPath w) (\<lambda>_ w.
        (Return downloadPath, w))))))"

definition try_block :: "string \<Rightarrow> string \<Rightarrow> world \<Rightarrow> unit io" where
  "try_block BASE_URL downloadPath w =
     bind (puppeteer (Goto BASE_URL) w) (\<lambda>_ w.
     bind (main_loop downloadPath 0 w) (\<lambda>photoCount w.
       console_log (COMPLETION (photoCount + 1)) w))"

definition main :: "string \<Rightarrow> world \<Rightarrow> unit io" where
  "main BASE_URL w =
     bind (open_session w) (\<lambda>downloadPath w.
       try_finally (try_block BASE_URL downloadPath w) (puppeteer BrowserClose))"

text \<open>The script from its first line: the two checks of \<open>process.argv\<close> (lines 5-11 and
  22-29), then \<open>main().catch(...)\<close> (lines 165-168).\<close>

definition check_argv :: "(string \<Rightarrow> string \<Rightarrow> bool) \<Rightarrow> string list \<Rightarrow> world \<Rightarrow> unit io" where
  "check_argv after_scheme argv w =
     (if length argv < 3 then
        bind (console_error MISSING_ARGUMENT w) (\<lambda>_ w.
        bind (console_log USAGE w) (\<lambda>_ w.
        bind (console_log NOTE_QUOTES w) (\<lambda>_ w.
        bind (console_log EXAMPLE w) (\<lambda>_ w.
          process_exit 1 w))))
      else if \<not> isValidUrl after_scheme (argv ! 2) then
        bind (console_error INVALID_URL w) (\<lambda>_ w.
        bind (console_log COMMON_ISSUES w) (\<lambda>_ w.
        bind (console_log ISSUE_PROTOCOL w) (\<lambda>_ w.
        bind (console_log ISSUE_SPECIAL_CHARACTERS w) (\<lambda>_ w.
        bind (console_log ISSUE_MALFORMED w) (\<lambda>_ w.
          process_exit 1 w)))))
      else (Return (), w))"

text \<open>The exit code of the process: the argument of \<open>process.exit\<close>, or 0 when the script
  runs to its end; \<open>None\<close> while the run is pending. The handler of line 165 exits, so
  nothing is thrown past it.\<close>

fun exit_code :: "'a res \<Rightarrow> nat option" where
  "exit_code (Return _) = Some 0"
| "exit_code (Exited c) = Some c"
| "exit_code (Throw e) = Some 1"
| "exit_code Pending = None"

definition script :: "(string \<Rightarrow> string \<Rightarrow> bool) \<Rightarrow> string list \<Rightarrow> world \<Rightarrow> unit io" where
  "script after_scheme argv w =
     bind (check_argv after_scheme argv w) (\<lambda>_ w.
       try_catch (main (argv ! 2) w)
         (\<lambda>error w.
            bind (console_error (CRITICAL_ERROR error) w) (\<lambda>_ w. process_exit 1 w)))"

definition program ::
  "(string \<Rightarrow> string \<Rightarrow> bool) \<Rightarrow> string list \<Rightarrow> world \<Rightarrow> nat option \<times> world" where
  "program after_scheme argv w =
     (case script after_scheme argv w of (r, w') \<Rightarrow> (exit_code r, w'))"

section \<open>What a run did\<close>

text \<open>
  The claims about a run are read off its trace. A download is started by the click of
  line 149 (\<open>Click IMAGE_LINK\<close>); the watcher's confirmation is followed at once by the
  message of line 151 (\<open>DOWNLOAD_SUCCESS\<close>); the pagination step returns \<open>true\<close> right
  after the pause of line 118 (\<open>SetTimeout ANIMATION\<close>), and nowhere else is that pause
  made; the count reported is the argument of the \<open>COMPLETION\<close> message of line 159.
\<close>

fun is_download_success :: "action \<Rightarrow> bool" where
  "is_download_success (ConsoleLog (DOWNLOAD_SUCCESS f)) = True"
| "is_download_success _ = False"

fun completion_of :: "action \<Rightarrow> nat option" where
  "completion_of (ConsoleLog (COMPLETION n)) = Some n"
| "completion_of _ = None"

definition downloads_started :: "action list \<Rightarrow> nat" where
  "downloads_started acts = length (filter (\<lambda>a. a = Click IMAGE_LINK) acts)"

definition downloads_completed :: "action list \<Rightarrow> nat" where
  "downloads_completed acts = length (filter is_download_success acts)"

definition advances :: "action list \<Rightarrow> nat" where
  "advances acts = length (filter (\<lambda>a. a = SetTimeout ANIMATION) acts)"

definition reported_counts :: "action list \<Rightarrow> nat list" where
  "reported_counts acts = List.map_filter completion_of acts"

text \<open>The downloads in flight along a trace: \<open>flight b acts\<close> starts with a download in
  flight (\<open>b\<close>) or none, and is \<open>None\<close> as soon as a download is started while one is in
  flight, or confirmed while none is.\<close>

fun flight :: "bool \<Rightarrow> action list \<Rightarrow> bool option" where
  "flight b [] = Some b"
| "flight b (a # acts) =
     (if a = Click IMAGE_LINK then (if b then None else flight True acts)
      else if is_download_success a then (if b then flight False acts else None)
      else flight b acts)"

text \<open>The calls of one watcher call, of one pagination step, and of the loop from photo
  \<open>n\<close> on, by how the loop ends (\<open>walk\<close>).\<close>

definition poll_actions :: "string \<Rightarrow> action list \<Rightarrow> bool" where
  "poll_actions directory acts = (set acts \<subseteq> {DateNow, Readdir directory, SetTimeout POLL_INTERVAL})"

definition nav_advance :: "nat \<Rightarrow> action list" where
  "nav_advance n =
     [ConsoleLog CURRENT_URL, WaitForSelector NEXT_BUTTON, ConsoleLog (NAVIGATION_PROGRESS n),
      ClickElement, WaitForSelector IMAGE_LINK, SetTimeout ANIMATION]"

definition nav_end :: "nat \<Rightarrow> action list \<Rightarrow> bool" where
  "nav_end n acts =
     (acts = [ConsoleLog CURRENT_URL, WaitForSelector NEXT_BUTTON] \<or>
      acts = [ConsoleLog CURRENT_URL, WaitForSelector NEXT_BUTTON, ConsoleLog END_OF_ALBUM] \<or>
      acts = [ConsoleLog CURRENT_URL, WaitForSelector NEXT_BUTTON,
              ConsoleLog (NAVIGATION_PROGRESS n), ClickElement, ConsoleLog END_OF_ALBUM] \<or>
      acts = [ConsoleLog CURRENT_URL, WaitForSelector NEXT_BUTTON,
              ConsoleLog (NAVIGATION_PROGRESS n), ClickElement, WaitForSelector IMAGE_LINK,
              ConsoleLog END_OF_ALBUM])"

definition nav_pending :: "nat \<Rightarrow> action list \<Rightarrow> bool" where
  "nav_pending n acts =
     (acts = [ConsoleLog CURRENT_URL, WaitForSelector NEXT_BUTTON] \<or>
      acts = [ConsoleLog CURRENT_URL, WaitForSelector NEXT_BUTTON,
              ConsoleLog (NAVIGATION_PROGRESS n), ClickElement] \<or>
      acts = [ConsoleLog CURRENT_URL, WaitForSelector NEXT_BUTTON,
              ConsoleLog (NAVIGATION_PROGRESS n), ClickElement, WaitForSelector IMAGE_LINK])"

inductive walk :: "string \<Rightarrow> nat \<Rightarrow> nat res \<Rightarrow> action list \<Rightarrow> bool" for p :: string where
  click_fails:
    "r = Pending \<or> (\<exists>m. r = Throw (External m)) \<Longrightarrow>
     walk p n r [ConsoleLog (DOWNLOAD_START n), Click IMAGE_LINK]"
| watcher_fails:
    "poll_actions p ws \<Longrightarrow> r = Pending \<or> r = Throw DownloadTimedOut \<Longrightarrow>
     walk p n r (ConsoleLog (DOWNLOAD_START n) # Click IMAGE_LINK # ws)"
| nav_waits:
    "poll_actions p ws \<Longrightarrow> nav_pending (Suc n) ns \<Longrightarrow>
     walk p n Pending
       (ConsoleLog (DOWNLOAD_START n) # Click IMAGE_LINK # ws @
        ConsoleLog (DOWNLOAD_SUCCESS f) # ns)"
| gallery_ends:
    "poll_actions p ws \<Longrightarrow> nav_end (Suc n) ns \<Longrightarrow>
     walk p n (Return n)
       (ConsoleLog (DOWNLOAD_START n) # Click IMAGE_LINK # ws @
        ConsoleLog (DOWNLOAD_SUCCESS f) # ns)"
| next_photo:
    "poll_actions p ws \<Longrightarrow> walk p (Suc n) r acts \<Longrightarrow>
     walk p n r
       (ConsoleLog (DOWNLOAD_START n) # Click IMAGE_LINK # ws @
        ConsoleLog (DOWNLOAD_SUCCESS f) # nav_advance (Suc n) @ acts)"

text \<open>The polls of a watcher call that find nothing and are before the deadline.\<close>

definition idle :: "int \<Rightarrow> string list \<Rightarrow> (int \<times> string list) list \<Rightarrow> bool" where
  "idle startTime filesBefore polls =
     (\<forall>(t, fs) \<in> set polls. t - startTime < DOWNLOAD \<and> completed filesBefore fs = None)"

section \<open>Concrete runs\<close>

text \<open>A gallery of three photos whose "next" control works on the first two and never
  shows on the third. The first download is seen as \<open>a.jpg.crdownload\<close> before it is
  complete.\<close>

definition gallery3 :: world where
  "gallery3 = \<lparr>dirname = ''/app'', dir = Absent,
     ticks = [(0, []), (0, [''a.jpg.crdownload'']), (600, [''a.jpg'']),
              (3000, [''a.jpg'']), (3001, [''a.jpg'', ''b.jpg'']),
              (6000, [''a.jpg'', ''b.jpg'']), (6001, [''a.jpg'', ''b.jpg'', ''c.jpg''])],
     browser = [Resolves, Resolves, Resolves, Resolves, Resolves,
                Resolves, Resolves, Resolves, Resolves,
                Resolves, Resolves, Resolves, Resolves,
                Resolves, Rejects ''TimeoutError'', Resolves],
     trace = []\<rparr>"

text \<open>A download directory that already holds two files.\<close>

definition occupied :: world where
  "occupied = \<lparr>dirname = ''/app'', dir = Dir [''old.jpg'', ''notes.txt''], ticks = [],
     browser = [Resolves, Resolves], trace = []\<rparr>"

text \<open>A second download under way: \<open>a.jpg\<close> is there from before, \<open>b.jpg\<close> shows first as a
  partial file and then, in one listing, next to another new file.\<close>

definition downloading :: world where
  "downloading = \<lparr>dirname = ''/app'', dir = Dir [''a.jpg''],
     ticks = [(1000, [''a.jpg'']), (1001, [''a.jpg'', ''b.jpg.crdownload'']),
              (1600, [''b.jpg.crdownload'', ''a.jpg'', ''b.jpg'', ''c.jpg'']), (2200, [''a.jpg'', ''b.jpg''])],
     browser = [], trace = []\<rparr>"

text \<open>A gallery of one photo whose download stalls: the partial file stays for more than
  thirty seconds.\<close>

definition stalled :: world where
  "stalled = \<lparr>dirname = ''/app'', dir = Absent,
     ticks = [(0, []), (1, [''a.jpg.crdownload'']), (15000, [''a.jpg.crdownload'']),
              (29999, [''a.jpg.crdownload'']), (30500, [''a.jpg.crdownload'']), (31000, [''a.jpg''])],
     browser = [Resolves, Resolves, Resolves, Resolves, Resolves, Resolves, Resolves],
     trace = []\<rparr>"


text \<open>A page on which the image link cannot be clicked.\<close>

definition no_image :: world where
  "no_image = \<lparr>dirname = ''/app'', dir = Absent, ticks = [],
     browser = [Resolves, Resolves, Resolves, Resolves, Resolves,
                Rejects ''No element found for selector'', Resolves],
     trace = []\<rparr>"

lemmas watcher_defs = waitForDownloadCompletion_def pollLoop.simps completed_def
  array_includes_def endsWith_def DOWNLOAD_def POLL_INTERVAL_def

lemmas url_defs = isValidUrl_def new_URL_def strip_c0_def
  scheme_start_state_def c0_control_or_space_def ascii_tab_or_newline_def ascii_alpha_def
  ascii_upper_alpha_def ascii_lower_alpha_def ascii_digit_def ascii_lowercase_def accept_rest_def

lemmas io_defs = fs_mkdir_def fs_readdir_def date_now_def setTimeout_def puppeteer_def settle_def
  emit_def console_log_def console_error_def process_exit_def try_catch_def try_finally_def

lemmas run_defs = program_def script_def check_argv_def main_def open_session_def try_block_def
  checkDirectoryEmpty_def setupBrowser_def configureDownloads_def handleNextButton_def
  main_loop.simps path_join_def DOWNLOAD_DIR_def ANIMATION_def Let_def

section \<open>Command-line arguments\<close>

text \<open>
  C10. Two invocations with the same first positional argument \<open>process.argv[2]\<close> behave
  the same in the same environment: same exit code, same calls, same console output.
  Whatever else is on the command line is never read.
\<close>

theorem extra_arguments_ignored:
  assumes "3 \<le> length argv" and "3 \<le> length argv'" and "argv ! 2 = argv' ! 2"
  shows "program after_scheme argv w = program after_scheme argv' w"
proof -
  have "check_argv after_scheme argv w = check_argv after_scheme argv' w"
    using assms by (simp add: check_argv_def)
  then show ?thesis
    unfolding program_def script_def assms(3) by simp
qed

theorem extra_arguments_ignored_witness:
  "program accept_rest [''node'', ''index.js'', ''https://example.com/g''] gallery3 =
   program accept_rest
     [''/usr/bin/node'', ''/app/index.js'', ''https://example.com/g'', ''--fast'', ''2'']
     gallery3"
  using extra_arguments_ignored[of "[''node'', ''index.js'', ''https://example.com/g'']"
      "[''/usr/bin/node'', ''/app/index.js'', ''https://example.com/g'', ''--fast'', ''2'']"
      accept_rest gallery3]
  by simp

section \<open>URL validation\<close>

lemma scheme_state_Some:
  "scheme_state buffer input = Some (scheme, rest) \<Longrightarrow> CHR '':'' \<in> set input"
  by (induction buffer input rule: scheme_state.induct) (auto split: if_splits)

lemma scheme_start_state_Some:
  "scheme_start_state input = Some (scheme, rest) \<Longrightarrow> CHR '':'' \<in> set input"
  by (auto simp: scheme_start_state_def split: list.splits if_splits dest: scheme_state_Some)

lemma set_strip_c0: "set (strip_c0 s) \<subseteq> set s"
proof -
  have "set (strip_c0 s) \<subseteq> set (dropWhile c0_control_or_space s)"
    unfolding strip_c0_def
    using set_dropWhileD[of _ c0_control_or_space "rev (dropWhile c0_control_or_space s)"]
    by auto
  also have "\<dots> \<subseteq> set s"
    using set_dropWhileD by fastforce
  finally show ?thesis .
qed

text \<open>
  C7, as the code has it. The validation step lets a string through exactly when
  \<open>new URL\<close> accepts it, and \<open>new URL\<close> is called without a base: the string must carry a
  scheme, and what follows the scheme must parse. Every other string raises InvalidInput
  (the messages of lines 23-27 and exit code 1). A string with no colon has no scheme, so
  the relative forms \<open>/gallery-1\<close>, \<open>gallery-1\<close>, \<open>../a?b#c\<close> are all refused.
\<close>

theorem url_validation:
  assumes "3 \<le> length argv"
  shows "check_argv after_scheme argv w =
           (if \<exists>scheme rest.
                 scheme_start_state
                   (filter (\<lambda>c. \<not> ascii_tab_or_newline c) (strip_c0 (argv ! 2))) =
                   Some (scheme, rest) \<and>
                 after_scheme scheme rest
            then (Return (), w)
            else (Exited 1, w\<lparr>trace := trace w @
              [ConsoleError INVALID_URL, ConsoleLog COMMON_ISSUES, ConsoleLog ISSUE_PROTOCOL,
               ConsoleLog ISSUE_SPECIAL_CHARACTERS, ConsoleLog ISSUE_MALFORMED,
               ProcessExit 1]\<rparr>)) \<and>
         (CHR '':'' \<notin> set (argv ! 2) \<longrightarrow> fst (check_argv after_scheme argv w) = Exited 1)"
proof -
  let ?input = "filter (\<lambda>c. \<not> ascii_tab_or_newline c) (strip_c0 (argv ! 2))"
  have valid: "isValidUrl after_scheme (argv ! 2) \<longleftrightarrow>
      (\<exists>scheme rest. scheme_start_state ?input = Some (scheme, rest) \<and> after_scheme scheme rest)"
    by (auto simp: isValidUrl_def new_URL_def split: option.splits)
  have first: "check_argv after_scheme argv w =
           (if \<exists>scheme rest. scheme_start_state ?input = Some (scheme, rest) \<and>
                 after_scheme scheme rest
            then (Return (), w)
            else (Exited 1, w\<lparr>trace := trace w @
              [ConsoleError INVALID_URL, ConsoleLog COMMON_ISSUES, ConsoleLog ISSUE_PROTOCOL,
               ConsoleLog ISSUE_SPECIAL_CHARACTERS, ConsoleLog ISSUE_MALFORMED,
               ProcessExit 1]\<rparr>))"
    using assms unfolding valid[symmetric]
    by (simp add: check_argv_def console_log_def console_error_def process_exit_def emit_def)
  have second: "fst (check_argv after_scheme argv w) = Exited 1"
    if "CHR '':'' \<notin> set (argv ! 2)"
  proof -
    from that have "CHR '':'' \<notin> set ?input"
      using set_strip_c0[of "argv ! 2"] by auto
    then have "scheme_start_state ?input = None"
      using scheme_start_state_Some[of ?input] by (cases "scheme_start_state ?input") auto
    then have "\<not> isValidUrl after_scheme (argv ! 2)"
      by (simp add: valid)
    then show ?thesis
      using assms
      by (simp add: check_argv_def console_log_def console_error_def process_exit_def)
  qed
  from first second show ?thesis by blast
qed

theorem url_validation_witness:
  "check_argv accept_rest [''node'', ''index.js'', ''https://example.com/g''] gallery3 =
     (Return (), gallery3) \<and>
   fst (check_argv accept_rest [''node'', ''index.js'', ''gallery-1''] gallery3) = Exited 1"
  using url_validation[of "[''node'', ''index.js'', ''https://example.com/g'']" accept_rest gallery3]
    url_validation[of "[''node'', ''index.js'', ''gallery-1'']" accept_rest gallery3]
  by (simp add: url_defs)

text \<open>C7 as the specification words it does not hold for a URL of relative syntax: the
  run stops at the validation step with exit code 1.\<close>

theorem relative_url_rejected:
  "program accept_rest [''node'', ''index.js'', ''/gallery-1''] gallery3 =
     (Some 1, gallery3\<lparr>trace :=
        [ConsoleError INVALID_URL, ConsoleLog COMMON_ISSUES, ConsoleLog ISSUE_PROTOCOL,
         ConsoleLog ISSUE_SPECIAL_CHARACTERS, ConsoleLog ISSUE_MALFORMED, ProcessExit 1]\<rparr>)"
  by (simp add: program_def script_def check_argv_def url_defs io_defs gallery3_def)

section \<open>The emptiness check\<close>

text \<open>
  C6. When the download directory holds \<open>N > 0\<close> files at the start, the run ends with
  exit code 1 after the message of line 61. The world it leaves differs from the initial
  one in the trace alone: the directory still holds exactly the initial files, no answer
  of the browser has been consumed, and the calls issued are \<open>mkdir\<close> (recursive, on a
  directory that exists), \<open>readdir\<close>, \<open>console.error\<close> and \<open>process.exit\<close>: no browser is
  launched.
\<close>

theorem nonempty_directory_aborts:
  assumes "3 \<le> length argv" and "isValidUrl after_scheme (argv ! 2)"
    and "dir w = Dir files" and "files \<noteq> []"
  shows "program after_scheme argv w =
           (Some 1, w\<lparr>trace := trace w @
              [Mkdir (path_join (dirname w) DOWNLOAD_DIR),
               Readdir (path_join (dirname w) DOWNLOAD_DIR),
               ConsoleError (ERROR_MESSAGE
                 (DirectoryNotEmpty (path_join (dirname w) DOWNLOAD_DIR) (length files))),
               ProcessExit 1]\<rparr>)"
  using assms
  by (simp add: program_def script_def check_argv_def main_def open_session_def
      checkDirectoryEmpty_def io_defs Let_def)

theorem nonempty_directory_aborts_witness:
  "program accept_rest [''node'', ''index.js'', ''https://example.com/g''] occupied =
     (Some 1, occupied\<lparr>trace :=
        [Mkdir ''/app/photos'', Readdir ''/app/photos'',
         ConsoleError (ERROR_MESSAGE (DirectoryNotEmpty ''/app/photos'' 2)),
         ProcessExit 1]\<rparr>) \<and>
   dir occupied = Dir [''old.jpg'', ''notes.txt'']"
  using nonempty_directory_aborts[of "[''node'', ''index.js'', ''https://example.com/g'']"
      accept_rest occupied "[''old.jpg'', ''notes.txt'']"]
  by (simp add: occupied_def url_defs path_join_def DOWNLOAD_DIR_def)

section \<open>The download watcher\<close>


lemma pollLoop_skip:
  "ticks w = pre @ rest \<Longrightarrow> idle s b pre \<Longrightarrow>
   \<exists>w1. ticks w1 = rest \<and> pollLoop d s b w = pollLoop d s b w1"
proof (induction pre arbitrary: w)
  case Nil
  then show ?case by auto
next
  case (Cons p pre)
  obtain t fs where p: "p = (t, fs)" by (cases p)
  let ?w = "emit (SetTimeout POLL_INTERVAL) (polled d fs w)"
  from Cons.prems p have tw: "ticks w = (t, fs) # (pre @ rest)" by simp
  from Cons.prems(2) p have now: "t - s < DOWNLOAD" "completed b fs = None" and rest: "idle s b pre"
    by (auto simp: idle_def)
  have "ticks ?w = pre @ rest" by (simp add: tw)
  from Cons.IH[OF this rest] obtain w1 where "ticks w1 = rest" "pollLoop d s b ?w = pollLoop d s b w1"
    by blast
  then show ?case using now by (auto simp: pollLoop_Cons[OF tw])
qed

lemma pollLoop_Return:
  "fst (pollLoop d s b w) = Return g \<Longrightarrow> \<exists>(t, fs) \<in> set (ticks w). completed b fs = Some g"
proof (induction "ticks w" arbitrary: w)
  case Nil
  then show ?case by (simp add: pollLoop_Nil[OF Nil.hyps(1)[symmetric]])
next
  case (Cons p rest)
  obtain t fs where p: "p = (t, fs)" by (cases p)
  from Cons.hyps(2) p have tw: "ticks w = (t, fs) # rest" by simp
  have tr: "rest = ticks (emit (SetTimeout POLL_INTERVAL) (polled d fs w))"
    by (simp add: tw)
  show ?case
    using Cons.hyps(1)[OF tr] Cons.prems
    by (auto simp: pollLoop_Cons[OF tw] tw split: if_splits option.splits)
qed

lemma pollLoop_timeout:
  "fst (pollLoop d s b w) = Throw DownloadTimedOut \<Longrightarrow>
   \<exists>pre t fs post. ticks w = pre @ (t, fs) # post \<and> idle s b pre \<and> DOWNLOAD \<le> t - s \<and>
      ticks (snd (pollLoop d s b w)) = post"
proof (induction "ticks w" arbitrary: w)
  case Nil
  then show ?case by (simp add: pollLoop_Nil[OF Nil.hyps(1)[symmetric]])
next
  case (Cons p rest)
  obtain t fs where p: "p = (t, fs)" by (cases p)
  from Cons.hyps(2) p have tw: "ticks w = (t, fs) # rest" by simp
  let ?w = "emit (SetTimeout POLL_INTERVAL) (polled d fs w)"
  have tr: "rest = ticks ?w"
    by (simp add: tw)
  show ?case
  proof (cases "t - s < DOWNLOAD")
    case True
    with Cons.prems have c: "completed b fs = None" and r: "fst (pollLoop d s b ?w) = Throw DownloadTimedOut"
      by (auto simp: pollLoop_Cons[OF tw] split: option.splits)
    from Cons.hyps(1)[OF tr r] obtain pre t' fs' post where
      "ticks ?w = pre @ (t', fs') # post" "idle s b pre" "DOWNLOAD \<le> t' - s"
      "ticks (snd (pollLoop d s b ?w)) = post" by blast
    with True c tw have "ticks w = ((t, fs) # pre) @ (t', fs') # post \<and> idle s b ((t, fs) # pre) \<and> DOWNLOAD \<le> t' - s \<and>
      ticks (snd (pollLoop d s b w)) = post"
      by (simp add: idle_def pollLoop_Cons[OF tw])
    then show ?thesis by blast
  next
    case False
    then have "ticks w = [] @ (t, fs) # rest \<and> idle s b [] \<and> DOWNLOAD \<le> t - s \<and>
      ticks (snd (pollLoop d s b w)) = rest"
      by (simp add: idle_def pollLoop_Cons[OF tw] tw)
    then show ?thesis by blast
  qed
qed

lemma find_SomeD: "find P xs = Some x \<Longrightarrow> x \<in> set xs \<and> P x"
  by (induction xs) (auto split: if_splits)

lemma completed_Some:
  "completed b fs = Some g \<longleftrightarrow>
     find (\<lambda>f. \<not> endsWith f ''.crdownload'') (filter (\<lambda>f. f \<notin> set b) fs) = Some g \<and> g \<noteq> []"
  by (auto simp: completed_def array_includes_def split: option.splits)

lemma completed_None:
  assumes "[] \<notin> set fs"
  shows "completed b fs = None \<longleftrightarrow> (\<forall>f \<in> set fs. f \<in> set b \<or> endsWith f ''.crdownload'')"
proof (cases "find (\<lambda>f. \<not> endsWith f ''.crdownload'') (filter (\<lambda>f. f \<notin> set b) fs)")
  case None
  then have "completed b fs = None"
    by (simp add: completed_def array_includes_def)
  moreover from None have "\<forall>f \<in> set fs. f \<in> set b \<or> endsWith f ''.crdownload''"
    by (auto simp: find_None_iff)
  ultimately show ?thesis by simp
next
  case (Some g)
  from find_SomeD[OF Some] assms have "g \<noteq> []" "g \<in> set fs" "g \<notin> set b" "\<not> endsWith g ''.crdownload''"
    by auto
  with Some show ?thesis
    by (auto simp: completed_def array_includes_def)
qed

text \<open>
  C1. The call reads the clock and the directory (the "before" snapshot), then polls. If,
  in the polls that follow, every listing before some poll has no new file without the
  \<open>.crdownload\<close> suffix, that poll is before the deadline and its listing has one, then
  the call returns the first such file of that listing, in the listing's order. Whatever
  the environment does, a filename the call returns is in a listing polled after the
  start, is not in the "before" snapshot and does not end with \<open>.crdownload\<close>.
  Filenames are not empty: the test of line 74 takes the empty string for no file.
\<close>

theorem watcher_returns_first_new_file:
  "(ticks w = (t0, before) # pre @ (t, fs) # post \<and>
    (\<forall>(t', fs') \<in> set pre. t' - t0 < DOWNLOAD \<and>
       find (\<lambda>f. \<not> endsWith f ''.crdownload'') (filter (\<lambda>f. f \<notin> set before) fs') = None) \<and>
    t - t0 < DOWNLOAD \<and>
    find (\<lambda>f. \<not> endsWith f ''.crdownload'') (filter (\<lambda>f. f \<notin> set before) fs) = Some f \<and>
    f \<noteq> []
    \<longrightarrow> fst (waitForDownloadCompletion directory w) = Return f \<and> f \<notin> set before) \<and>
   (fst (waitForDownloadCompletion directory w) = Return g
    \<longrightarrow> (\<exists>t0 before rest. ticks w = (t0, before) # rest \<and> g \<notin> set before \<and>
          \<not> endsWith g ''.crdownload'' \<and> (\<exists>(t, fs) \<in> set rest. g \<in> set fs)))"
proof (intro conjI impI)
  assume a: "ticks w = (t0, before) # pre @ (t, fs) # post \<and>
    (\<forall>(t', fs') \<in> set pre. t' - t0 < DOWNLOAD \<and>
       find (\<lambda>f. \<not> endsWith f ''.crdownload'') (filter (\<lambda>f. f \<notin> set before) fs') = None) \<and>
    t - t0 < DOWNLOAD \<and>
    find (\<lambda>f. \<not> endsWith f ''.crdownload'') (filter (\<lambda>f. f \<notin> set before) fs) = Some f \<and>
    f \<noteq> []"
  then have tw: "ticks w = (t0, before) # (pre @ (t, fs) # post)" by simp
  from a have "idle t0 before pre"
    by (auto simp: idle_def completed_def array_includes_def)
  moreover have "ticks (polled directory before w) = pre @ (t, fs) # post"
    by (simp add: tw)
  ultimately obtain w1 where w1: "ticks w1 = (t, fs) # post"
    and eq: "pollLoop directory t0 before (polled directory before w) = pollLoop directory t0 before w1"
    using pollLoop_skip by blast
  from a have "completed before fs = Some f"
    by (simp add: completed_Some)
  with a have "fst (pollLoop directory t0 before w1) = Return f"
    by (simp add: pollLoop_Cons[OF w1])
  then show "fst (waitForDownloadCompletion directory w) = Return f"
    by (simp add: waitForDownloadCompletion_Cons[OF tw] eq)
  from a show "f \<notin> set before"
    using find_SomeD[of "\<lambda>f. \<not> endsWith f ''.crdownload''" "filter (\<lambda>f. f \<notin> set before) fs" f]
    by simp
next
  assume r: "fst (waitForDownloadCompletion directory w) = Return g"
  show "\<exists>t0 before rest. ticks w = (t0, before) # rest \<and> g \<notin> set before \<and>
          \<not> endsWith g ''.crdownload'' \<and> (\<exists>(t, fs) \<in> set rest. g \<in> set fs)"
  proof (cases "ticks w")
    case Nil
    with r show ?thesis by (simp add: waitForDownloadCompletion_Nil)
  next
    case (Cons p rest)
    obtain t0 before where p: "p = (t0, before)" by (cases p)
    with Cons have tw: "ticks w = (t0, before) # rest" by simp
    from r have "fst (pollLoop directory t0 before (polled directory before w)) = Return g"
      by (simp add: waitForDownloadCompletion_Cons[OF tw])
    from pollLoop_Return[OF this] obtain t fs where
      "(t, fs) \<in> set rest" and c: "completed before fs = Some g"
      by (auto simp: tw)
    moreover from c have "g \<in> set fs" "g \<notin> set before" "\<not> endsWith g ''.crdownload''"
      using find_SomeD[of "\<lambda>f. \<not> endsWith f ''.crdownload''" "filter (\<lambda>f. f \<notin> set before) fs" g]
      by (auto simp: completed_Some)
    ultimately show ?thesis using tw by blast
  qed
qed

theorem watcher_returns_first_new_file_witness:
  "fst (waitForDownloadCompletion ''/app/photos'' downloading) = Return ''b.jpg'' \<and>
   ''b.jpg'' \<notin> set [''a.jpg''] \<and> \<not> endsWith ''b.jpg'' ''.crdownload''"
  using watcher_returns_first_new_file[of downloading 1000 "[''a.jpg'']"
      "[(1001, [''a.jpg'', ''b.jpg.crdownload''])]" 1600
      "[''b.jpg.crdownload'', ''a.jpg'', ''b.jpg'', ''c.jpg'']" "[(2200, [''a.jpg'', ''b.jpg''])]"
      "''b.jpg''" "''/app/photos''" "''b.jpg''"]
  by (simp add: downloading_def endsWith_def DOWNLOAD_def)

text \<open>
  C3. With listings of non-empty filenames, the call fails with "Download timed out"
  exactly when a reading of the clock is at least \<open>DOWNLOAD\<close> milliseconds after the first
  one and, in every poll before it, each file of the listing is in the "before" snapshot
  or ends with \<open>.crdownload\<close>. When it fails, the last reading it took is at least
  \<open>DOWNLOAD\<close> after the first.
\<close>

theorem watcher_timeout:
  assumes "\<forall>(t, fs) \<in> set (ticks w). [] \<notin> set fs"
  shows "(fst (waitForDownloadCompletion directory w) = Throw DownloadTimedOut \<longleftrightarrow>
          (\<exists>t0 before pre t fs post.
             ticks w = (t0, before) # pre @ (t, fs) # post \<and>
             (\<forall>(t', fs') \<in> set pre. t' - t0 < DOWNLOAD \<and>
                (\<forall>f \<in> set fs'. f \<in> set before \<or> endsWith f ''.crdownload'')) \<and>
             DOWNLOAD \<le> t - t0)) \<and>
         (fst (waitForDownloadCompletion directory w) = Throw DownloadTimedOut \<longrightarrow>
          (\<exists>t0 before pre t fs.
             ticks w = (t0, before) # pre @ (t, fs) # ticks (snd (waitForDownloadCompletion directory w)) \<and>
             DOWNLOAD \<le> t - t0))"
proof -
  let ?W = "waitForDownloadCompletion directory w"
  have idle_iff: "idle t0 before pre \<longleftrightarrow>
      (\<forall>(t', fs') \<in> set pre. t' - t0 < DOWNLOAD \<and>
         (\<forall>f \<in> set fs'. f \<in> set before \<or> endsWith f ''.crdownload''))"
    if "set pre \<subseteq> set (ticks w)" for t0 before pre
  proof -
    have "completed before fs' = None \<longleftrightarrow> (\<forall>f \<in> set fs'. f \<in> set before \<or> endsWith f ''.crdownload'')"
      if "(t', fs') \<in> set pre" for t' fs'
      using that \<open>set pre \<subseteq> set (ticks w)\<close> assms by (intro completed_None) auto
    then show ?thesis unfolding idle_def by blast
  qed
  have forward: "\<exists>t0 before pre t fs. ticks w = (t0, before) # pre @ (t, fs) # ticks (snd ?W) \<and>
      idle t0 before pre \<and> DOWNLOAD \<le> t - t0"
    if r: "fst ?W = Throw DownloadTimedOut"
  proof (cases "ticks w")
    case Nil
    with r show ?thesis by (simp add: waitForDownloadCompletion_Nil)
  next
    case (Cons p rest)
    obtain t0 before where p: "p = (t0, before)" by (cases p)
    with Cons have tw: "ticks w = (t0, before) # rest" by simp
    let ?P = "pollLoop directory t0 before (polled directory before w)"
    from r have "fst ?P = Throw DownloadTimedOut"
      by (simp add: waitForDownloadCompletion_Cons[OF tw])
    from pollLoop_timeout[OF this] obtain pre t fs post where
      "ticks (polled directory before w) = pre @ (t, fs) # post" "idle t0 before pre"
      "DOWNLOAD \<le> t - t0" "ticks (snd ?P) = post"
      by blast
    then have "ticks w = (t0, before) # pre @ (t, fs) # ticks (snd ?W) \<and>
      idle t0 before pre \<and> DOWNLOAD \<le> t - t0"
      by (simp add: tw waitForDownloadCompletion_Cons[OF tw])
    then show ?thesis by blast
  qed
  have backward: "fst ?W = Throw DownloadTimedOut"
    if tw: "ticks w = (t0, before) # pre @ (t, fs) # post" and i: "idle t0 before pre"
      and d: "DOWNLOAD \<le> t - t0" for t0 before pre t fs post
  proof -
    have "ticks (polled directory before w) = pre @ (t, fs) # post"
      by (simp add: tw)
    with i obtain w1 where w1: "ticks w1 = (t, fs) # post"
      and eq: "pollLoop directory t0 before (polled directory before w) = pollLoop directory t0 before w1"
      using pollLoop_skip by blast
    from d have "fst (pollLoop directory t0 before w1) = Throw DownloadTimedOut"
      by (simp add: pollLoop_Cons[OF w1])
    then show ?thesis
      using tw by (simp add: waitForDownloadCompletion_Cons eq)
  qed
  show ?thesis
  proof (intro conjI iffI impI)
    assume "fst ?W = Throw DownloadTimedOut"
    from forward[OF this] obtain t0 before pre t fs where
      tw: "ticks w = (t0, before) # pre @ (t, fs) # ticks (snd ?W)"
      and i: "idle t0 before pre" and d: "DOWNLOAD \<le> t - t0"
      by blast
    from tw have "set pre \<subseteq> set (ticks w)" by auto
    from idle_iff[OF this] i tw d
    show "\<exists>t0 before pre t fs post.
             ticks w = (t0, before) # pre @ (t, fs) # post \<and>
             (\<forall>(t', fs') \<in> set pre. t' - t0 < DOWNLOAD \<and>
                (\<forall>f \<in> set fs'. f \<in> set before \<or> endsWith f ''.crdownload'')) \<and>
             DOWNLOAD \<le> t - t0"
      by blast
  next
    assume "\<exists>t0 before pre t fs post.
             ticks w = (t0, before) # pre @ (t, fs) # post \<and>
             (\<forall>(t', fs') \<in> set pre. t' - t0 < DOWNLOAD \<and>
                (\<forall>f \<in> set fs'. f \<in> set before \<or> endsWith f ''.crdownload'')) \<and>
             DOWNLOAD \<le> t - t0"
    then obtain t0 before pre t fs post where
      tw: "ticks w = (t0, before) # pre @ (t, fs) # post"
      and i: "\<forall>(t', fs') \<in> set pre. t' - t0 < DOWNLOAD \<and>
                (\<forall>f \<in> set fs'. f \<in> set before \<or> endsWith f ''.crdownload'')"
      and d: "DOWNLOAD \<le> t - t0"
      by blast
    from tw have "set pre \<subseteq> set (ticks w)" by auto
    from idle_iff[OF this] i have "idle t0 before pre" by blast
    from backward[OF tw this d] show "fst ?W = Throw DownloadTimedOut" .
  next
    assume "fst ?W = Throw DownloadTimedOut"
    from forward[OF this]
    show "\<exists>t0 before pre t fs. ticks w = (t0, before) # pre @ (t, fs) # ticks (snd ?W) \<and>
             DOWNLOAD \<le> t - t0"
      by blast
  qed
qed

theorem watcher_timeout_witness:
  "fst (waitForDownloadCompletion ''/app/photos'' stalled) = Throw DownloadTimedOut \<and>
   ticks (snd (waitForDownloadCompletion ''/app/photos'' stalled)) = [(31000, [''a.jpg''])] \<and>
   (\<exists>t0 before pre t fs.
       ticks stalled =
         (t0, before) # pre @ (t, fs) # ticks (snd (waitForDownloadCompletion ''/app/photos'' stalled)) \<and>
       DOWNLOAD \<le> t - t0)"
proof -
  have "\<forall>(t, fs) \<in> set (ticks stalled). [] \<notin> set fs"
    by (simp add: stalled_def)
  from watcher_timeout[OF this, of "''/app/photos''"]
  show ?thesis
    by (simp add: stalled_def watcher_defs io_defs)
qed

section \<open>The traces of the loop\<close>

lemma puppeteer_trace:
  "puppeteer a w = (r, w') \<Longrightarrow>
   trace w' = trace w @ [a] \<and>
   (r = Pending \<or> (\<exists>m. r = Throw (External m)) \<or> (\<exists>b. r = Return b))"
  by (auto simp: puppeteer_def settle_def split: list.splits response.splits)

lemma pollLoop_trace:
  "\<exists>ws. trace (snd (pollLoop d s b w)) = trace w @ ws \<and> poll_actions d ws \<and>
     (fst (pollLoop d s b w) = Pending \<or> fst (pollLoop d s b w) = Throw DownloadTimedOut \<or>
      (\<exists>f. fst (pollLoop d s b w) = Return f))"
proof (induction "ticks w" arbitrary: w)
  case Nil
  then show ?case
    by (simp add: pollLoop_Nil[OF Nil.hyps[symmetric]] poll_actions_def)
next
  case (Cons p rest)
  obtain t fs where p: "p = (t, fs)" by (cases p)
  from Cons.hyps(2) p have tw: "ticks w = (t, fs) # rest" by simp
  let ?w = "emit (SetTimeout POLL_INTERVAL) (polled d fs w)"
  have tr: "rest = ticks ?w"
    by (simp add: tw)
  from Cons.hyps(1)[OF tr] obtain ws where
    ws: "trace (snd (pollLoop d s b ?w)) = trace ?w @ ws" "poll_actions d ws"
      "fst (pollLoop d s b ?w) = Pending \<or> fst (pollLoop d s b ?w) = Throw DownloadTimedOut \<or>
        (\<exists>f. fst (pollLoop d s b ?w) = Return f)"
    by blast
  show ?case
  proof (cases "t - s < DOWNLOAD")
    case False
    then show ?thesis
      by (simp add: pollLoop_Cons[OF tw] poll_actions_def)
  next
    case True
    show ?thesis
    proof (cases "completed b fs")
      case (Some f)
      with True show ?thesis
        by (simp add: pollLoop_Cons[OF tw] poll_actions_def)
    next
      case None
      with True have eq: "pollLoop d s b w = pollLoop d s b ?w"
        by (simp add: pollLoop_Cons[OF tw])
      have "trace (snd (pollLoop d s b w)) =
              trace w @ ([DateNow, Readdir d, SetTimeout POLL_INTERVAL] @ ws)"
        using ws(1) by (simp add: eq)
      moreover have "poll_actions d ([DateNow, Readdir d, SetTimeout POLL_INTERVAL] @ ws)"
        using ws(2) by (simp add: poll_actions_def)
      ultimately show ?thesis
        using ws(3) unfolding eq by blast
    qed
  qed
qed

lemma waitForDownloadCompletion_trace:
  assumes "waitForDownloadCompletion d w = (r, w')"
  shows "\<exists>ws. trace w' = trace w @ ws \<and> poll_actions d ws \<and>
     (r = Pending \<or> r = Throw DownloadTimedOut \<or> (\<exists>f. r = Return f))"
proof (cases "ticks w")
  case Nil
  with assms show ?thesis
    by (auto simp: waitForDownloadCompletion_Nil poll_actions_def)
next
  case (Cons p rest)
  obtain t0 before where "p = (t0, before)" by (cases p)
  with Cons have tw: "ticks w = (t0, before) # rest" by simp
  let ?w = "polled d before w"
  from assms have eq: "pollLoop d t0 before ?w = (r, w')"
    by (simp add: waitForDownloadCompletion_Cons[OF tw])
  from pollLoop_trace[of d t0 before ?w] obtain ws where
    "trace w' = trace ?w @ ws" "poll_actions d ws"
    "r = Pending \<or> r = Throw DownloadTimedOut \<or> (\<exists>f. r = Return f)"
    unfolding eq by auto
  then have "trace w' = trace w @ ([DateNow, Readdir d] @ ws) \<and>
      poll_actions d ([DateNow, Readdir d] @ ws) \<and>
      (r = Pending \<or> r = Throw DownloadTimedOut \<or> (\<exists>f. r = Return f))"
    by (simp add: poll_actions_def)
  then show ?thesis by blast
qed

lemma handleNextButton_trace:
  assumes "handleNextButton n w = (r, w')"
  shows "(r = Return True \<and> trace w' = trace w @ nav_advance n) \<or>
         (r = Return False \<and> (\<exists>ns. trace w' = trace w @ ns \<and> nav_end n ns)) \<or>
         (r = Pending \<and> (\<exists>ns. trace w' = trace w @ ns \<and> nav_pending n ns))"
  using assms
  by (auto simp: handleNextButton_def try_catch_def console_log_def setTimeout_def
      puppeteer_def settle_def nav_advance_def nav_end_def nav_pending_def
      split: list.splits response.splits if_splits)

lemma main_loop_walk:
  "\<exists>acts. trace (snd (main_loop p n w)) = trace w @ acts \<and> walk p n (fst (main_loop p n w)) acts"
proof (induction p n w rule: main_loop.induct)
  case (1 p n w)
  let ?start = "[ConsoleLog (DOWNLOAD_START n), Click IMAGE_LINK]"
  let ?w0 = "emit (ConsoleLog (DOWNLOAD_START n)) w"
  have log0: "console_log (DOWNLOAD_START n) w = (Return (), ?w0)"
    by (simp add: console_log_def)
  obtain r1 w1 where click: "puppeteer (Click IMAGE_LINK) ?w0 = (r1, w1)"
    by (cases "puppeteer (Click IMAGE_LINK) ?w0")
  from puppeteer_trace[OF click] have t1: "trace w1 = trace w @ ?start"
    and r1: "r1 = Pending \<or> (\<exists>m. r1 = Throw (External m)) \<or> (\<exists>b. r1 = Return b)"
    by simp_all
  show ?case
  proof (cases "\<exists>b. r1 = Return b")
    case False
    with r1 have stop: "r1 = Pending \<or> (\<exists>m. r1 = Throw (External m))" by blast
    then have "main_loop p n w = (case r1 of Pending \<Rightarrow> Pending | Throw e \<Rightarrow> Throw e, w1)"
      by (subst main_loop.simps) (auto simp: log0 click)
    with stop t1 show ?thesis
      by (auto intro: walk.click_fails)
  next
    case True
    then obtain b where r1b: "r1 = Return b" by blast
    obtain r2 w2 where wait: "waitForDownloadCompletion p w1 = (r2, w2)"
      by (cases "waitForDownloadCompletion p w1")
    from waitForDownloadCompletion_trace[OF wait] obtain ws where
      t2: "trace w2 = trace w1 @ ws" and ws: "poll_actions p ws"
      and r2: "r2 = Pending \<or> r2 = Throw DownloadTimedOut \<or> (\<exists>f. r2 = Return f)"
      by blast
    show ?thesis
    proof (cases "\<exists>f. r2 = Return f")
      case False
      with r2 have stop: "r2 = Pending \<or> r2 = Throw DownloadTimedOut" by blast
      then have "main_loop p n w = (case r2 of Pending \<Rightarrow> Pending | Throw e \<Rightarrow> Throw e, w2)"
        by (subst main_loop.simps) (auto simp: log0 click r1b wait)
      with stop t1 t2 ws show ?thesis
        by (auto intro: walk.watcher_fails)
    next
      case True
      then obtain f where r2f: "r2 = Return f" by blast
      let ?w3 = "emit (ConsoleLog (DOWNLOAD_SUCCESS f)) w2"
      have log3: "console_log (DOWNLOAD_SUCCESS f) w2 = (Return (), ?w3)"
        by (simp add: console_log_def)
      obtain r4 w4 where nav: "handleNextButton (n + 1) ?w3 = (r4, w4)"
        by (cases "handleNextButton (n + 1) ?w3")
      have t3: "trace ?w3 = trace w @ ?start @ ws @ [ConsoleLog (DOWNLOAD_SUCCESS f)]"
        by (simp add: t1 t2)
      from handleNextButton_trace[OF nav]
      consider (advance) "r4 = Return True" "trace w4 = trace ?w3 @ nav_advance (n + 1)"
        | (ends) ns where "r4 = Return False" "trace w4 = trace ?w3 @ ns" "nav_end (n + 1) ns"
        | (waits) ns where "r4 = Pending" "trace w4 = trace ?w3 @ ns" "nav_pending (n + 1) ns"
        by blast
      then show ?thesis
      proof cases
        case advance
        have eq: "main_loop p n w = main_loop p (n + 1) w4"
          using nav advance
          by (subst main_loop.simps) (simp add: log0 click r1b wait r2f log3)
        from "1.IH"[OF log0 click[unfolded r1b] wait[unfolded r2f] log3 nav[unfolded advance(1)]]
        obtain acts where "trace (snd (main_loop p (n + 1) w4)) = trace w4 @ acts"
          and "walk p (n + 1) (fst (main_loop p (n + 1) w4)) acts"
          by auto
        with advance(2) t3 ws have
          "trace (snd (main_loop p n w)) =
             trace w @ (?start @ ws @ [ConsoleLog (DOWNLOAD_SUCCESS f)] @ nav_advance (n + 1) @ acts)"
          and "walk p n (fst (main_loop p n w))
             (?start @ ws @ [ConsoleLog (DOWNLOAD_SUCCESS f)] @ nav_advance (n + 1) @ acts)"
          by (simp_all add: eq walk.next_photo)
        then show ?thesis by blast
      next
        case ends
        have eq: "main_loop p n w = (Return n, w4)"
          using nav ends
          by (subst main_loop.simps) (simp add: log0 click r1b wait r2f log3)
        from ends t3 ws have
          "trace (snd (main_loop p n w)) =
             trace w @ (?start @ ws @ [ConsoleLog (DOWNLOAD_SUCCESS f)] @ ns)"
          and "walk p n (fst (main_loop p n w))
             (?start @ ws @ [ConsoleLog (DOWNLOAD_SUCCESS f)] @ ns)"
          by (simp_all add: eq walk.gallery_ends)
        then show ?thesis by blast
      next
        case waits
        have eq: "main_loop p n w = (Pending, w4)"
          using nav waits
          by (subst main_loop.simps) (simp add: log0 click r1b wait r2f log3)
        from waits t3 ws have
          "trace (snd (main_loop p n w)) =
             trace w @ (?start @ ws @ [ConsoleLog (DOWNLOAD_SUCCESS f)] @ ns)"
          and "walk p n (fst (main_loop p n w))
             (?start @ ws @ [ConsoleLog (DOWNLOAD_SUCCESS f)] @ ns)"
          by (simp_all add: eq walk.nav_waits)
        then show ?thesis by blast
      qed
    qed
  qed
qed

lemma counts_simps [simp]:
  "downloads_started [] = 0"
  "downloads_started (a # acts) = (if a = Click IMAGE_LINK then 1 else 0) + downloads_started acts"
  "downloads_started (xs @ ys) = downloads_started xs + downloads_started ys"
  "downloads_completed [] = 0"
  "downloads_completed (a # acts) = (if is_download_success a then 1 else 0) + downloads_completed acts"
  "downloads_completed (xs @ ys) = downloads_completed xs + downloads_completed ys"
  "advances [] = 0"
  "advances (a # acts) = (if a = SetTimeout ANIMATION then 1 else 0) + advances acts"
  "advances (xs @ ys) = advances xs + advances ys"
  "reported_counts [] = []"
  "reported_counts (a # acts) = (case completion_of a of None \<Rightarrow> [] | Some n \<Rightarrow> [n]) @ reported_counts acts"
  "reported_counts (xs @ ys) = reported_counts xs @ reported_counts ys"
  by (simp_all add: downloads_started_def downloads_completed_def advances_def reported_counts_def
      List.map_filter_def split: option.splits)

lemma poll_actions_counts:
  assumes "poll_actions p ws"
  shows "downloads_started ws = 0" "downloads_completed ws = 0" "advances ws = 0"
    "reported_counts ws = []"
proof -
  have "\<forall>a \<in> set ws. a \<noteq> Click IMAGE_LINK \<and> \<not> is_download_success a \<and>
      a \<noteq> SetTimeout ANIMATION \<and> completion_of a = None"
    using assms by (auto simp: poll_actions_def POLL_INTERVAL_def ANIMATION_def)
  then show "downloads_started ws = 0" "downloads_completed ws = 0" "advances ws = 0"
    "reported_counts ws = []"
    by (induction ws) auto
qed

lemma nav_counts:
  "downloads_started (nav_advance n) = 0" "downloads_completed (nav_advance n) = 0"
  "advances (nav_advance n) = 1" "reported_counts (nav_advance n) = []"
  "nav_end n ns \<Longrightarrow> downloads_started ns = 0 \<and> downloads_completed ns = 0 \<and> advances ns = 0 \<and>
     reported_counts ns = []"
  "nav_pending n ns \<Longrightarrow> downloads_started ns = 0 \<and> downloads_completed ns = 0 \<and> advances ns = 0 \<and>
     reported_counts ns = []"
  by (auto simp: nav_advance_def nav_end_def nav_pending_def)

lemma walk_counts:
  "walk p n r acts \<Longrightarrow> r = Return m \<Longrightarrow>
   n \<le> m \<and> downloads_completed acts = m - n + 1 \<and> advances acts = m - n \<and>
   downloads_started acts = m - n + 1 \<and> reported_counts acts = []"
proof (induction rule: walk.induct)
  case (gallery_ends ws n ns f)
  then show ?case by (simp add: poll_actions_counts nav_counts)
next
  case (next_photo ws n r acts f)
  then show ?case by (auto simp: poll_actions_counts nav_counts)
qed auto

lemma flight_append:
  "flight b (xs @ ys) = (case flight b xs of None \<Rightarrow> None | Some b' \<Rightarrow> flight b' ys)"
  by (induction xs arbitrary: b) auto

lemma flight_quiet:
  "\<forall>a \<in> set acts. a \<noteq> Click IMAGE_LINK \<and> \<not> is_download_success a \<Longrightarrow> flight b acts = Some b"
  by (induction acts) auto

lemma flight_poll: "poll_actions p ws \<Longrightarrow> flight b ws = Some b"
  by (rule flight_quiet) (auto simp: poll_actions_def)

lemma flight_nav:
  "flight b (nav_advance n) = Some b"
  "nav_end n ns \<Longrightarrow> flight b ns = Some b"
  "nav_pending n ns \<Longrightarrow> flight b ns = Some b"
  by (auto simp: nav_advance_def nav_end_def nav_pending_def)

lemma walk_flight: "walk p n r acts \<Longrightarrow> \<exists>b. flight False acts = Some b"
  by (induction rule: walk.induct) (auto simp: flight_append flight_poll flight_nav)

lemma flight_prefix:
  "flight b acts = Some b' \<Longrightarrow> prefix pfx acts \<Longrightarrow>
   \<exists>b''. flight b pfx = Some b'' \<and>
     downloads_started pfx + (if b then 1 else 0) = downloads_completed pfx + (if b'' then 1 else 0)"
proof (induction pfx arbitrary: b acts)
  case Nil
  then show ?case by simp
next
  case (Cons a pfx)
  from Cons.prems(2) obtain rest where acts: "acts = a # rest" and pr: "prefix pfx rest"
    by (cases acts) auto
  consider (click) "a = Click IMAGE_LINK" | (success) "is_download_success a"
    | (other) "a \<noteq> Click IMAGE_LINK" "\<not> is_download_success a"
    by blast
  then show ?case
  proof cases
    case click
    with Cons.prems(1) have b: "\<not> b" and f: "flight True rest = Some b'"
      by (auto simp: acts split: if_splits)
    from Cons.IH[OF f pr] obtain b'' where "flight True pfx = Some b''"
      "downloads_started pfx + 1 = downloads_completed pfx + (if b'' then 1 else 0)"
      by auto
    with click b show ?thesis by simp
  next
    case success
    then have nc: "a \<noteq> Click IMAGE_LINK" by auto
    with success Cons.prems(1) have b: "b" and f: "flight False rest = Some b'"
      by (auto simp: acts split: if_splits)
    from Cons.IH[OF f pr] obtain b'' where "flight False pfx = Some b''"
      "downloads_started pfx = downloads_completed pfx + (if b'' then 1 else 0)"
      by auto
    with success nc b show ?thesis by simp
  next
    case other
    with Cons.prems(1) have f: "flight b rest = Some b'"
      by (simp add: acts)
    from Cons.IH[OF f pr] obtain b'' where "flight b pfx = Some b''"
      "downloads_started pfx + (if b then 1 else 0) =
       downloads_completed pfx + (if b'' then 1 else 0)"
      by auto
    with other show ?thesis by simp
  qed
qed

lemma walk_starts:
  "walk p n r acts \<Longrightarrow>
   \<exists>rest. acts = ConsoleLog (DOWNLOAD_START n) # Click IMAGE_LINK # rest"
  by (induction rule: walk.induct) auto



section \<open>The traces of a run\<close>

lemma open_session_Return:
  assumes "open_session w = (Return p, w0)"
  shows "p = path_join (dirname w) DOWNLOAD_DIR"
    and "trace w0 = trace w @ [Mkdir p, Readdir p, Launch, NewPage, CreateCDPSession,
           SetDownloadBehavior p]"
  using assms
  by (auto simp: open_session_def checkDirectoryEmpty_def setupBrowser_def configureDownloads_def
      io_defs Let_def split: entry.splits list.splits response.splits if_splits)

lemma open_session_quiet:
  assumes "open_session w = (r, w0)"
  shows "\<exists>acts. trace w0 = trace w @ acts \<and>
           (\<forall>a \<in> set acts. a \<noteq> Click IMAGE_LINK \<and> \<not> is_download_success a)"
  using assms
  by (auto simp: open_session_def checkDirectoryEmpty_def setupBrowser_def configureDownloads_def
      io_defs Let_def split: entry.splits list.splits response.splits if_splits)

lemma walk_result: "walk p n r acts \<Longrightarrow> r = Pending \<or> (\<exists>e. r = Throw e) \<or> (\<exists>m. r = Return m)"
  by (induction rule: walk.induct) auto

lemma try_block_cases [consumes 1, case_names goto_stops loop_pending loop_throws loop_returns]:
  assumes "try_block url p w0 = (r1, w1)"
  obtains (goto_stops) "r1 = Pending \<or> (\<exists>m. r1 = Throw (External m))"
      "trace w1 = trace w0 @ [Goto url]"
    | (loop_pending) acts where "r1 = Pending" "walk p 0 Pending acts"
      "trace w1 = trace w0 @ Goto url # acts"
    | (loop_throws) e acts where "r1 = Throw e" "walk p 0 (Throw e) acts"
      "trace w1 = trace w0 @ Goto url # acts"
    | (loop_returns) m acts where "r1 = Return ()" "walk p 0 (Return m) acts"
      "trace w1 = trace w0 @ Goto url # acts @ [ConsoleLog (COMPLETION (m + 1))]"
proof -
  obtain rg wg where goto: "puppeteer (Goto url) w0 = (rg, wg)"
    by (cases "puppeteer (Goto url) w0")
  from puppeteer_trace[OF goto] have tg: "trace wg = trace w0 @ [Goto url]"
    and rg: "rg = Pending \<or> (\<exists>m. rg = Throw (External m)) \<or> (\<exists>b. rg = Return b)"
    by simp_all
  show thesis
  proof (cases "\<exists>b. rg = Return b")
    case False
    with rg have "rg = Pending \<or> (\<exists>m. rg = Throw (External m))" by blast
    with assms goto tg have "r1 = Pending \<or> (\<exists>m. r1 = Throw (External m))"
      "trace w1 = trace w0 @ [Goto url]"
      by (auto simp: try_block_def)
    then show ?thesis by (rule goto_stops)
  next
    case True
    then obtain b where rgb: "rg = Return b" by blast
    obtain r wl where eq: "main_loop p 0 wg = (r, wl)"
      by (cases "main_loop p 0 wg")
    with main_loop_walk[of p 0 wg] obtain acts where
      tl: "trace wl = trace wg @ acts" and wk: "walk p 0 r acts"
      by auto
    from walk_result[OF wk] consider "r = Pending" | e where "r = Throw e" | m where "r = Return m"
      by blast
    then show ?thesis
    proof cases
      case 1
      with assms goto rgb eq have "r1 = Pending" "w1 = wl"
        by (auto simp: try_block_def)
      with 1 wk tl tg show ?thesis by (intro loop_pending[of acts]) simp_all
    next
      case 2
      with assms goto rgb eq have "r1 = Throw e" "w1 = wl"
        by (auto simp: try_block_def)
      with 2 wk tl tg show ?thesis by (intro loop_throws[of e acts]) simp_all
    next
      case 3
      with assms goto rgb eq have "r1 = Return ()"
        "w1 = emit (ConsoleLog (COMPLETION (m + 1))) wl"
        by (auto simp: try_block_def console_log_def)
      with 3 wk tl tg show ?thesis by (intro loop_returns[of m acts]) simp_all
    qed
  qed
qed

text \<open>What the script does once the \<open>try\<close> block has ended, by how it ended and by the
  browser's answer to \<open>close\<close>.\<close>

lemma script_after_try:
  assumes "3 \<le> length argv" and "isValidUrl P (argv ! 2)"
    and "open_session w = (Return p, w0)" and "try_block (argv ! 2) p w0 = (r1, w1)"
  shows "script P argv w =
     (case r1 of
        Pending \<Rightarrow> (Pending, w1)
      | Exited c \<Rightarrow> (Exited c, w1)
      | Return _ \<Rightarrow>
          (case browser w1 of
             [] \<Rightarrow> (Pending, emit BrowserClose w1)
           | b # bs \<Rightarrow>
               (case settle b of
                  Throw e \<Rightarrow>
                    (Exited 1, emit (ProcessExit 1) (emit (ConsoleError (CRITICAL_ERROR e))
                       (emit BrowserClose (w1\<lparr>browser := bs\<rparr>))))
                | _ \<Rightarrow> (Return (), emit BrowserClose (w1\<lparr>browser := bs\<rparr>))))
      | Throw e \<Rightarrow>
          (case browser w1 of
             [] \<Rightarrow> (Pending, emit BrowserClose w1)
           | b # bs \<Rightarrow>
               (Exited 1, emit (ProcessExit 1)
                  (emit (ConsoleError (CRITICAL_ERROR (case settle b of Throw e' \<Rightarrow> e' | _ \<Rightarrow> e)))
                     (emit BrowserClose (w1\<lparr>browser := bs\<rparr>))))))"
  using assms
  by (simp add: script_def check_argv_def main_def try_finally_def try_catch_def puppeteer_def
      settle_def console_error_def process_exit_def
      split: res.splits list.splits response.splits)

lemma script_without_session:
  assumes "3 \<le> length argv" and "isValidUrl P (argv ! 2)"
    and "open_session w = (r0, w0)" and "\<forall>p. r0 \<noteq> Return p"
  shows "script P argv w =
     (case r0 of
        Throw e \<Rightarrow> (Exited 1, emit (ProcessExit 1) (emit (ConsoleError (CRITICAL_ERROR e)) w0))
      | Exited c \<Rightarrow> (Exited c, w0)
      | _ \<Rightarrow> (Pending, w0))"
  using assms
  by (simp add: script_def check_argv_def main_def try_catch_def
      console_error_def process_exit_def split: res.splits)

lemma script_rejects_argv:
  assumes "length argv < 3 \<or> \<not> isValidUrl P (argv ! 2)"
  shows "\<exists>acts. trace (snd (script P argv w)) = trace w @ acts \<and>
     fst (script P argv w) = Exited 1 \<and>
     (\<forall>a \<in> set acts. a \<noteq> Click IMAGE_LINK \<and> \<not> is_download_success a)"
  using assms
  by (auto simp: script_def check_argv_def console_error_def console_log_def process_exit_def emit_def)

lemma open_session_Exited: "open_session w = (Exited c, w0) \<Longrightarrow> c = 1"
  by (auto simp: open_session_def checkDirectoryEmpty_def setupBrowser_def configureDownloads_def
      io_defs Let_def split: entry.splits list.splits response.splits if_splits)

lemma script_flight:
  "\<exists>acts b. trace (snd (script P argv w)) = trace w @ acts \<and> flight False acts = Some b"
proof (cases "length argv < 3 \<or> \<not> isValidUrl P (argv ! 2)")
  case True
  from script_rejects_argv[OF True, of w] obtain acts where
    "trace (snd (script P argv w)) = trace w @ acts"
    "\<forall>a \<in> set acts. a \<noteq> Click IMAGE_LINK \<and> \<not> is_download_success a"
    by blast
  then show ?thesis using flight_quiet[of acts False] by blast
next
  case False
  then have args: "3 \<le> length argv" "isValidUrl P (argv ! 2)" by auto
  obtain r0 w0 where os: "open_session w = (r0, w0)"
    by (cases "open_session w")
  from open_session_quiet[OF os] obtain pre where
    pre: "trace w0 = trace w @ pre" and "\<forall>a \<in> set pre. a \<noteq> Click IMAGE_LINK \<and> \<not> is_download_success a"
    by blast
  then have fpre: "flight False pre = Some False"
    by (simp add: flight_quiet)
  show ?thesis
  proof (cases "\<exists>p. r0 = Return p")
    case False
    then have "\<exists>post. trace (snd (script P argv w)) = trace w0 @ post \<and>
        (\<forall>a \<in> set post. a \<noteq> Click IMAGE_LINK \<and> \<not> is_download_success a)"
      by (auto simp: script_without_session[OF args os] split: res.splits)
    then obtain post where "trace (snd (script P argv w)) = trace w @ (pre @ post)"
      and "flight False post = Some False"
      using pre flight_quiet[of _ False] by auto
    with fpre show ?thesis
      by (metis flight_append option.simps(5))
  next
    case True
    then obtain p where os': "open_session w = (Return p, w0)"
      using os by blast
    obtain r1 w1 where tb: "try_block (argv ! 2) p w0 = (r1, w1)"
      by (cases "try_block (argv ! 2) p w0")
    have "\<exists>mid b. trace w1 = trace w0 @ mid \<and> flight False mid = Some b"
      using tb
    proof (cases rule: try_block_cases)
      case goto_stops
      then show ?thesis by auto
    next
      case (loop_pending acts)
      with walk_flight[OF loop_pending(2)] show ?thesis by auto
    next
      case (loop_throws e acts)
      with walk_flight[OF loop_throws(2)] show ?thesis by auto
    next
      case (loop_returns m acts)
      from walk_flight[OF loop_returns(2)] obtain b where "flight False acts = Some b" by blast
      then have "flight False (Goto (argv ! 2) # acts @ [ConsoleLog (COMPLETION (m + 1))]) = Some b"
        by (simp add: flight_append)
      with loop_returns(3) show ?thesis by blast
    qed
    then obtain mid b where mid: "trace w1 = trace w0 @ mid" and fmid: "flight False mid = Some b"
      by blast
    have "\<exists>post. trace (snd (script P argv w)) = trace w1 @ post \<and>
        (\<forall>a \<in> set post. a \<noteq> Click IMAGE_LINK \<and> \<not> is_download_success a)"
      by (auto simp: script_after_try[OF args os' tb] split: res.splits list.splits)
    then obtain post where "trace (snd (script P argv w)) = trace w @ (pre @ mid @ post)"
      and "flight b post = Some b"
      using pre mid flight_quiet[of _ b] by auto
    with fpre fmid have "flight False (pre @ mid @ post) = Some b"
      by (simp add: flight_append)
    with \<open>trace (snd (script P argv w)) = trace w @ (pre @ mid @ post)\<close> show ?thesis by blast
  qed
qed

lemma script_exit_0:
  assumes "script P argv w = (r, w')" and "exit_code r = Some 0"
  shows "\<exists>p m acts. walk p 0 (Return m) acts \<and>
     trace w' = trace w @ [Mkdir p, Readdir p, Launch, NewPage, CreateCDPSession,
       SetDownloadBehavior p, Goto (argv ! 2)] @ acts @
       [ConsoleLog (COMPLETION (m + 1)), BrowserClose]"
proof -
  have "\<not> (length argv < 3 \<or> \<not> isValidUrl P (argv ! 2))"
  proof
    assume "length argv < 3 \<or> \<not> isValidUrl P (argv ! 2)"
    from script_rejects_argv[OF this, of w] assms show False by auto
  qed
  then have args: "3 \<le> length argv" "isValidUrl P (argv ! 2)"
    by auto
  obtain r0 w0 where os: "open_session w = (r0, w0)"
    by (cases "open_session w")
  have "\<exists>p. r0 = Return p"
  proof (rule ccontr)
    assume "\<not> ?thesis"
    then have "\<forall>p. r0 \<noteq> Return p" by blast
    from script_without_session[OF args os this] assms open_session_Exited[of w _ w0] os
    show False by (auto split: res.splits)
  qed
  then obtain p where os': "open_session w = (Return p, w0)"
    using os by blast
  obtain r1 w1 where tb: "try_block (argv ! 2) p w0 = (r1, w1)"
    by (cases "try_block (argv ! 2) p w0")
  note after = script_after_try[OF args os' tb]
  from tb show ?thesis
  proof (cases rule: try_block_cases)
    case goto_stops
    with after assms show ?thesis by (auto split: list.splits)
  next
    case (loop_pending acts)
    with after assms show ?thesis by auto
  next
    case (loop_throws e acts)
    with after assms show ?thesis by (auto split: list.splits)
  next
    case (loop_returns m acts)
    with after assms have "trace w' = trace w1 @ [BrowserClose]"
      by (auto split: list.splits res.splits)
    with loop_returns open_session_Return[OF os'] show ?thesis
      by auto
  qed
qed

lemma first_click_rejected:
  assumes "browser w0 = g # Rejects m # b # bs" and "\<forall>m'. g \<noteq> Rejects m'"
  shows "\<exists>w1. try_block url p w0 = (Throw (External m), w1) \<and> browser w1 = b # bs"
  using assms
  by (cases g)
    (simp_all add: try_block_def main_loop.simps puppeteer_def settle_def console_log_def)



lemma gallery3_run:
  "program accept_rest [''node'', ''index.js'', ''https://example.com/g''] gallery3 =
     (Some 0,
      \<lparr>dirname = ''/app'', dir = Dir [''a.jpg'', ''b.jpg'', ''c.jpg''], ticks = [], browser = [],
       trace =
         [Mkdir ''/app/photos'', Readdir ''/app/photos'', Launch, NewPage, CreateCDPSession,
          SetDownloadBehavior ''/app/photos'', Goto ''https://example.com/g'',
          ConsoleLog (DOWNLOAD_START 0), Click IMAGE_LINK, DateNow, Readdir ''/app/photos'',
          DateNow, Readdir ''/app/photos'', SetTimeout 500, DateNow, Readdir ''/app/photos'',
          ConsoleLog (DOWNLOAD_SUCCESS ''a.jpg''), ConsoleLog CURRENT_URL,
          WaitForSelector NEXT_BUTTON, ConsoleLog (NAVIGATION_PROGRESS 1), ClickElement,
          WaitForSelector IMAGE_LINK, SetTimeout 2000,
          ConsoleLog (DOWNLOAD_START 1), Click IMAGE_LINK, DateNow, Readdir ''/app/photos'',
          DateNow, Readdir ''/app/photos'', ConsoleLog (DOWNLOAD_SUCCESS ''b.jpg''),
          ConsoleLog CURRENT_URL, WaitForSelector NEXT_BUTTON,
          ConsoleLog (NAVIGATION_PROGRESS 2), ClickElement, WaitForSelector IMAGE_LINK,
          SetTimeout 2000,
          ConsoleLog (DOWNLOAD_START 2), Click IMAGE_LINK, DateNow, Readdir ''/app/photos'',
          DateNow, Readdir ''/app/photos'', ConsoleLog (DOWNLOAD_SUCCESS ''c.jpg''),
          ConsoleLog CURRENT_URL, WaitForSelector NEXT_BUTTON, ConsoleLog END_OF_ALBUM,
          ConsoleLog (COMPLETION 3), BrowserClose]\<rparr>)"
  by (simp add: gallery3_def run_defs io_defs watcher_defs url_defs)

section \<open>The traversal\<close>

text \<open>
  C2. A run that ends with exit code 0 has reported one count, and that count is the
  number of downloads the watcher confirmed, which is one more than the number of times
  the pagination step returned \<open>true\<close>.
\<close>

theorem photo_count_reported:
  assumes "trace w = []" and "program after_scheme argv w = (Some 0, w')"
  shows "reported_counts (trace w') = [downloads_completed (trace w')] \<and>
         downloads_completed (trace w') = advances (trace w') + 1"
proof -
  from assms(2) obtain r where "script after_scheme argv w = (r, w')" "exit_code r = Some 0"
    by (auto simp: program_def split: prod.splits)
  from script_exit_0[OF this] obtain p m acts where wk: "walk p 0 (Return m) acts"
    and tr: "trace w' = trace w @ [Mkdir p, Readdir p, Launch, NewPage, CreateCDPSession,
       SetDownloadBehavior p, Goto (argv ! 2)] @ acts @
       [ConsoleLog (COMPLETION (m + 1)), BrowserClose]"
    by blast
  from walk_counts[OF wk refl] tr assms(1) show ?thesis
    by (simp add: ANIMATION_def)
qed

theorem photo_count_reported_witness:
  "fst (program accept_rest [''node'', ''index.js'', ''https://example.com/g''] gallery3) = Some 0 \<and>
   reported_counts
     (trace (snd (program accept_rest [''node'', ''index.js'', ''https://example.com/g''] gallery3))) = [3] \<and>
   downloads_completed
     (trace (snd (program accept_rest [''node'', ''index.js'', ''https://example.com/g''] gallery3))) = 3 \<and>
   advances
     (trace (snd (program accept_rest [''node'', ''index.js'', ''https://example.com/g''] gallery3))) = 2"
proof -
  have "trace gallery3 = []" by (simp add: gallery3_def)
  from photo_count_reported[OF this gallery3_run] show ?thesis
    by (simp add: gallery3_run ANIMATION_def)
qed

text \<open>
  C9. A run that ends with exit code 0 has reported a count of at least 1. The first
  calls of the \<open>try\<close> block after \<open>goto\<close> are the start message and the click on the
  image link: the loop clicks and waits for the download before it looks for the "next"
  control, and the count reported is \<open>photoCount + 1\<close>. When that first click rejects
  (and the browser answers \<open>close\<close>), the run ends with exit code 1.
\<close>

theorem at_least_one_photo:
  "(trace w = [] \<and> program after_scheme argv w = (Some 0, w') \<longrightarrow>
      (\<exists>n. reported_counts (trace w') = [n] \<and> 1 \<le> n) \<and>
      (\<exists>p rest. trace w' =
         [Mkdir p, Readdir p, Launch, NewPage, CreateCDPSession, SetDownloadBehavior p,
          Goto (argv ! 2), ConsoleLog (DOWNLOAD_START 0), Click IMAGE_LINK] @ rest)) \<and>
   (3 \<le> length argv \<and> isValidUrl after_scheme (argv ! 2) \<and>
    open_session v = (Return p, v0) \<and> browser v0 = g # Rejects m # b # bs \<and>
    (\<forall>m'. g \<noteq> Rejects m') \<longrightarrow>
      fst (program after_scheme argv v) = Some 1)"
proof (intro conjI impI)
  assume a: "trace w = [] \<and> program after_scheme argv w = (Some 0, w')"
  then obtain r where "script after_scheme argv w = (r, w')" "exit_code r = Some 0"
    by (auto simp: program_def split: prod.splits)
  from script_exit_0[OF this] obtain p k acts where wk: "walk p 0 (Return k) acts"
    and tr: "trace w' = trace w @ [Mkdir p, Readdir p, Launch, NewPage, CreateCDPSession,
       SetDownloadBehavior p, Goto (argv ! 2)] @ acts @
       [ConsoleLog (COMPLETION (k + 1)), BrowserClose]"
    by blast
  from walk_counts[OF wk refl] tr a
  show "\<exists>n. reported_counts (trace w') = [n] \<and> 1 \<le> n"
    by simp
  from walk_starts[OF wk] obtain rest where
    "acts = ConsoleLog (DOWNLOAD_START 0) # Click IMAGE_LINK # rest"
    by blast
  with tr a have "trace w' =
         [Mkdir p, Readdir p, Launch, NewPage, CreateCDPSession, SetDownloadBehavior p,
          Goto (argv ! 2), ConsoleLog (DOWNLOAD_START 0), Click IMAGE_LINK] @
         (rest @ [ConsoleLog (COMPLETION (k + 1)), BrowserClose])"
    by simp
  then show "\<exists>p rest. trace w' =
         [Mkdir p, Readdir p, Launch, NewPage, CreateCDPSession, SetDownloadBehavior p,
          Goto (argv ! 2), ConsoleLog (DOWNLOAD_START 0), Click IMAGE_LINK] @ rest"
    by blast
next
  assume b: "3 \<le> length argv \<and> isValidUrl after_scheme (argv ! 2) \<and>
    open_session v = (Return p, v0) \<and> browser v0 = g # Rejects m # b # bs \<and>
    (\<forall>m'. g \<noteq> Rejects m')"
  then obtain v1 where tb: "try_block (argv ! 2) p v0 = (Throw (External m), v1)"
    and bv: "browser v1 = b # bs"
    using first_click_rejected[of v0 g m b bs "argv ! 2" p] by blast
  from b have "3 \<le> length argv" "isValidUrl after_scheme (argv ! 2)"
    "open_session v = (Return p, v0)" by simp_all
  from script_after_try[OF this tb] bv
  show "fst (program after_scheme argv v) = Some 1"
    by (simp add: program_def)
qed

theorem at_least_one_photo_witness:
  "fst (program accept_rest [''node'', ''index.js'', ''https://example.com/g''] gallery3) = Some 0 \<and>
   reported_counts
     (trace (snd (program accept_rest [''node'', ''index.js'', ''https://example.com/g''] gallery3))) = [3] \<and>
   fst (program accept_rest [''node'', ''index.js'', ''https://example.com/g''] no_image) = Some 1"
proof -
  have "trace gallery3 = []" by (simp add: gallery3_def)
  with at_least_one_photo[of gallery3 accept_rest "[''node'', ''index.js'', ''https://example.com/g'']"
    "snd (program accept_rest [''node'', ''index.js'', ''https://example.com/g''] gallery3)"
    no_image "''/app/photos''" "snd (open_session no_image)" Resolves
    "''No element found for selector''" Resolves "[]"]
  show ?thesis
    by (simp add: gallery3_run no_image_def open_session_def checkDirectoryEmpty_def
        setupBrowser_def configureDownloads_def path_join_def DOWNLOAD_DIR_def Let_def
        io_defs url_defs)
qed

text \<open>
  C8. At every point of every run, finished or not, the downloads started are the
  downloads confirmed or one more: the image link is never clicked while the last
  download is unconfirmed.
\<close>

theorem downloads_serialized:
  assumes "trace w = []" and "prefix pfx (trace (snd (program after_scheme argv w)))"
  shows "downloads_completed pfx \<le> downloads_started pfx \<and>
         downloads_started pfx \<le> downloads_completed pfx + 1"
proof -
  have "snd (program after_scheme argv w) = snd (script after_scheme argv w)"
    by (simp add: program_def split: prod.splits)
  with script_flight[of after_scheme argv w] assms obtain b where
    "flight False (trace (snd (program after_scheme argv w))) = Some b"
    by auto
  from flight_prefix[OF this assms(2)] show ?thesis
    by (auto split: if_splits)
qed

theorem downloads_serialized_witness:
  "prefix
     [Mkdir ''/app/photos'', Readdir ''/app/photos'', Launch, NewPage, CreateCDPSession,
      SetDownloadBehavior ''/app/photos'', Goto ''https://example.com/g'',
      ConsoleLog (DOWNLOAD_START 0), Click IMAGE_LINK, DateNow, Readdir ''/app/photos'']
     (trace (snd (program accept_rest [''node'', ''index.js'', ''https://example.com/g''] gallery3))) \<and>
   downloads_started
     [Mkdir ''/app/photos'', Readdir ''/app/photos'', Launch, NewPage, CreateCDPSession,
      SetDownloadBehavior ''/app/photos'', Goto ''https://example.com/g'',
      ConsoleLog (DOWNLOAD_START 0), Click IMAGE_LINK, DateNow, Readdir ''/app/photos''] \<le>
   downloads_completed
     [Mkdir ''/app/photos'', Readdir ''/app/photos'', Launch, NewPage, CreateCDPSession,
      SetDownloadBehavior ''/app/photos'', Goto ''https://example.com/g'',
      ConsoleLog (DOWNLOAD_START 0), Click IMAGE_LINK, DateNow, Readdir ''/app/photos''] + 1"
proof -
  have t: "trace gallery3 = []" by (simp add: gallery3_def)
  have p: "prefix
     [Mkdir ''/app/photos'', Readdir ''/app/photos'', Launch, NewPage, CreateCDPSession,
      SetDownloadBehavior ''/app/photos'', Goto ''https://example.com/g'',
      ConsoleLog (DOWNLOAD_START 0), Click IMAGE_LINK, DateNow, Readdir ''/app/photos'']
     (trace (snd (program accept_rest [''node'', ''index.js'', ''https://example.com/g''] gallery3)))"
    by (simp add: gallery3_run)
  from downloads_serialized[OF t p] p show ?thesis
    by simp
qed





end
